theory Spec2Isabelle
  imports Complex_Main
begin

section \<open>Data model of the chat component (components/chat/types.ts)\<close>

datatype ToolCallStatus = streaming | executing | complete

record ToolCall =
  toolUseId :: string
  name :: string
  input :: string
  result :: "string option"
  status :: ToolCallStatus

text \<open>
  A tool segment holds a reference to a \<open>ToolCall\<close> object, not a copy: the same object
  is stored in \<open>toolCallMap\<close> and mutated in place. References are addresses into a
  store of \<open>ToolCall\<close> objects.
\<close>

datatype MessageSegment = TextSegment string | ToolSegment nat

text \<open>
  The assistant placeholder message. Its \<open>segments\<close> field is optional in the source
  and is a shallow copy of the \<open>segments\<close> array: a list of references to the same
  segment objects.
\<close>

record Message =
  role :: string
  content :: string
  timestamp :: string
  msg_segments :: "nat list option"

section \<open>The canonical stream events\<close>

text \<open>
  The tagged union \<open>StreamEvent\<close>. The payload type is a parameter: the chat component
  reads the fields as strings (the declared type), while a parser passes on whatever
  value it found in the decoded frame.
\<close>

datatype 'v StreamEvent =
    Text 'v
  | ToolUseStart 'v 'v
  | ToolUseDelta 'v 'v
  | ToolResult 'v 'v
  | MessageEvent 'v
  | ResultEvent 'v
  | Lifecycle 'v

section \<open>The segment assembler (the event callback of sendMessage in ChatInterface.tsx)\<close>

text \<open>
  The state of one turn: the two local variables \<open>segments\<close> and \<open>toolCallMap\<close> of
  \<open>sendMessage\<close>, the objects they refer to, and the last element of the React state
  \<open>messages\<close> (the assistant placeholder). Objects are allocated at the end of their
  store, so the address of a new object is the length of the store.
  A JavaScript \<open>Map\<close> keeps insertion order; it is an association list with unique keys.
\<close>

record assembler =
  toolCalls :: "ToolCall list"
  segmentObjs :: "MessageSegment list"
  segments :: "nat list"
  toolCallMap :: "(string \<times> nat) list"
  message :: Message

definition map_get :: "(string \<times> nat) list \<Rightarrow> string \<Rightarrow> nat option" where
  "map_get m k = map_of m k"

fun map_set :: "string \<Rightarrow> nat \<Rightarrow> (string \<times> nat) list \<Rightarrow> (string \<times> nat) list" where
  "map_set k v [] = [(k, v)]"
| "map_set k v (kv # m) = (if fst kv = k then (k, v) # m else kv # map_set k v m)"

definition map_values :: "(string \<times> nat) list \<Rightarrow> nat list" where
  "map_values m = map snd m"

definition is_text :: "MessageSegment \<Rightarrow> bool" where
  "is_text seg = (case seg of TextSegment _ \<Rightarrow> True | ToolSegment _ \<Rightarrow> False)"

definition segment_content :: "MessageSegment \<Rightarrow> string" where
  "segment_content seg = (case seg of TextSegment c \<Rightarrow> c | ToolSegment _ \<Rightarrow> [])"

text \<open>\<open>segments.filter(s => s.type === "text").map(s => s.content).join("")\<close>\<close>

definition text_of_segments :: "MessageSegment list \<Rightarrow> nat list \<Rightarrow> string" where
  "text_of_segments objs addrs =
     concat (map segment_content (filter is_text (map (\<lambda>a. objs ! a) addrs)))"

definition updateMessage :: "assembler \<Rightarrow> assembler" where
  "updateMessage s =
     s\<lparr>message := (message s)\<lparr>content := text_of_segments (segmentObjs s) (segments s),
                               msg_segments := Some (segments s)\<rparr>\<rparr>"

text \<open>\<open>segments[segments.length - 1]\<close>, which is \<open>undefined\<close> on the empty array.\<close>

definition last_segment :: "assembler \<Rightarrow> (nat \<times> MessageSegment) option" where
  "last_segment s =
     (if segments s = [] then None
      else Some (last (segments s), segmentObjs s ! last (segments s)))"

text \<open>\<open>segments.push(seg)\<close> with a freshly allocated segment object.\<close>

definition push_segment :: "MessageSegment \<Rightarrow> assembler \<Rightarrow> assembler" where
  "push_segment seg s =
     s\<lparr>segmentObjs := segmentObjs s @ [seg],
       segments := segments s @ [length (segmentObjs s)]\<rparr>"

text \<open>A loop \<open>for (const tc of toolCallMap.values()) { ... }\<close> that updates each object in place.\<close>

fun for_each_toolCall :: "(ToolCall \<Rightarrow> ToolCall) \<Rightarrow> nat list \<Rightarrow> ToolCall list \<Rightarrow> ToolCall list" where
  "for_each_toolCall f [] h = h"
| "for_each_toolCall f (a # as) h = for_each_toolCall f as (h[a := f (h ! a)])"

definition mark_complete :: "ToolCall \<Rightarrow> ToolCall" where
  "mark_complete tc =
     (if status tc = streaming \<or> status tc = executing then tc\<lparr>status := complete\<rparr> else tc)"

definition mark_executing :: "ToolCall \<Rightarrow> ToolCall" where
  "mark_executing tc = (if status tc = streaming then tc\<lparr>status := executing\<rparr> else tc)"

definition complete_pending :: "assembler \<Rightarrow> assembler" where
  "complete_pending s =
     (case last_segment s of
        Some (_, ToolSegment _) \<Rightarrow>
          s\<lparr>toolCalls := for_each_toolCall mark_complete (map_values (toolCallMap s)) (toolCalls s)\<rparr>
      | _ \<Rightarrow> s)"

definition append_text :: "string \<Rightarrow> assembler \<Rightarrow> assembler" where
  "append_text c s =
     (case last_segment s of
        Some (a, TextSegment old) \<Rightarrow> s\<lparr>segmentObjs := (segmentObjs s)[a := TextSegment (old @ c)]\<rparr>
      | _ \<Rightarrow> push_segment (TextSegment c) s)"

fun handleEvent :: "assembler \<Rightarrow> string StreamEvent \<Rightarrow> assembler" where
  "handleEvent s (Text c) = updateMessage (append_text c (complete_pending s))"
| "handleEvent s (ToolUseStart i n) =
     updateMessage
       (push_segment (ToolSegment (length (toolCalls s)))
          (s\<lparr>toolCalls := toolCalls s @
                [\<lparr>toolUseId = i, name = n, input = [], result = None, status = streaming\<rparr>],
             toolCallMap := map_set i (length (toolCalls s)) (toolCallMap s)\<rparr>))"
| "handleEvent s (ToolUseDelta i d) =
     updateMessage
       (case map_get (toolCallMap s) i of
          Some a \<Rightarrow> s\<lparr>toolCalls := (toolCalls s)[a := (toolCalls s ! a)\<lparr>input := input (toolCalls s ! a) @ d\<rparr>]\<rparr>
        | None \<Rightarrow> s)"
| "handleEvent s (ToolResult i r) =
     updateMessage
       (case map_get (toolCallMap s) i of
          Some a \<Rightarrow> s\<lparr>toolCalls := (toolCalls s)[a := (toolCalls s ! a)\<lparr>result := Some r, status := complete\<rparr>]\<rparr>
        | None \<Rightarrow> s)"
| "handleEvent s (MessageEvent r) =
     (if r = ''assistant''
      then updateMessage
             (s\<lparr>toolCalls := for_each_toolCall mark_executing (map_values (toolCallMap s)) (toolCalls s)\<rparr>)
      else s)"
| "handleEvent s (ResultEvent r) = s"
| "handleEvent s (Lifecycle l) = s"

text \<open>
  The state at the start of a turn: empty \<open>segments\<close>, an empty \<open>toolCallMap\<close>, and the
  placeholder \<open>assistantResponse\<close> with empty content and no \<open>segments\<close> field.
\<close>

definition assistantResponse :: "string \<Rightarrow> Message" where
  "assistantResponse ts = \<lparr>role = ''assistant'', content = [], timestamp = ts, msg_segments = None\<rparr>"

definition init :: "string \<Rightarrow> assembler" where
  "init ts = \<lparr>toolCalls = [], segmentObjs = [], segments = [], toolCallMap = [],
              message = assistantResponse ts\<rparr>"

text \<open>The callback is invoked once per event, in arrival order.\<close>

definition handleEvents :: "assembler \<Rightarrow> string StreamEvent list \<Rightarrow> assembler" where
  "handleEvents s evs = foldl handleEvent s evs"

section \<open>JavaScript values\<close>

text \<open>
  The values a decoded frame is made of, and \<open>undefined\<close>, which \<open>JSON.parse\<close> never
  returns but every read of a missing property does. An object is its list of
  properties. Strings are sequences of code units in the range U+0000 to U+00FF.
\<close>

datatype jsval =
    JUndefined
  | JNull
  | JBool bool
  | JNum real
  | JStr string
  | JArr "jsval list"
  | JObj "(string \<times> jsval) list"

datatype js_error = SyntaxError | TypeError

text \<open>The truth value of a condition \<open>if (v)\<close>.\<close>

fun truthy :: "jsval \<Rightarrow> bool" where
  "truthy JUndefined = False"
| "truthy JNull = False"
| "truthy (JBool b) = b"
| "truthy (JNum x) = (x \<noteq> 0)"
| "truthy (JStr s) = (s \<noteq> [])"
| "truthy (JArr xs) = True"
| "truthy (JObj kvs) = True"

fun nullish :: "jsval \<Rightarrow> bool" where
  "nullish JUndefined = True"
| "nullish JNull = True"
| "nullish v = False"

text \<open>
  Reading property \<open>k\<close> of a value that is neither \<open>null\<close> nor \<open>undefined\<close>. None of
  the property names the parser reads is defined on a boolean, number, string or array,
  so there the read gives \<open>undefined\<close>.
\<close>

fun lookup :: "jsval \<Rightarrow> string \<Rightarrow> jsval" where
  "lookup (JObj kvs) k = (case map_of kvs k of Some v \<Rightarrow> v | None \<Rightarrow> JUndefined)"
| "lookup v k = JUndefined"

text \<open>\<open>v.k\<close> throws a \<open>TypeError\<close> on \<open>null\<close> and \<open>undefined\<close>.\<close>

definition get_prop :: "jsval \<Rightarrow> string \<Rightarrow> js_error + jsval" where
  "get_prop v k = (if nullish v then Inl TypeError else Inr (lookup v k))"

text \<open>The optional chain \<open>v?.k1?.k2 ...\<close>, which never throws.\<close>

fun opt_path :: "jsval \<Rightarrow> string list \<Rightarrow> jsval" where
  "opt_path v [] = v"
| "opt_path v (k # ks) = (if nullish v then JUndefined else opt_path (lookup v k) ks)"

fun typeof :: "jsval \<Rightarrow> string" where
  "typeof JUndefined = ''undefined''"
| "typeof JNull = ''object''"
| "typeof (JBool b) = ''boolean''"
| "typeof (JNum x) = ''number''"
| "typeof (JStr s) = ''string''"
| "typeof (JArr xs) = ''object''"
| "typeof (JObj kvs) = ''object''"

definition startsWith :: "string \<Rightarrow> string \<Rightarrow> bool" where
  "startsWith s p = (take (length p) s = p)"

definition substring :: "string \<Rightarrow> nat \<Rightarrow> string" where
  "substring s n = drop n s"

definition is_whitespace :: "char \<Rightarrow> bool" where
  "is_whitespace c = (c \<in> set [CHR 0x09, CHR 0x0A, CHR 0x0B, CHR 0x0C, CHR 0x0D, CHR 0x20, CHR 0xA0])"

definition trim :: "string \<Rightarrow> string" where
  "trim s = rev (dropWhile is_whitespace (rev (dropWhile is_whitespace s)))"

section \<open>The Converse parser (parsers/converse.ts)\<close>

text \<open>
  A computation of the parser reads and writes the module-level variable
  \<open>currentToolUseId\<close> and either returns or throws. The state is threaded through, and a
  throw keeps the state reached so far.
\<close>

type_synonym 'a js = "jsval \<Rightarrow> jsval \<times> (js_error + 'a)"

definition ret :: "'a \<Rightarrow> 'a js" where
  "ret x = (\<lambda>c. (c, Inr x))"

definition bind :: "'a js \<Rightarrow> ('a \<Rightarrow> 'b js) \<Rightarrow> 'b js" where
  "bind m f = (\<lambda>c. case m c of (c', Inl e) \<Rightarrow> (c', Inl e) | (c', Inr x) \<Rightarrow> f x c')"

definition lift :: "js_error + 'a \<Rightarrow> 'a js" where
  "lift r = (\<lambda>c. (c, r))"

definition try_catch :: "'a js \<Rightarrow> (js_error \<Rightarrow> 'a js) \<Rightarrow> 'a js" where
  "try_catch body handler =
     (\<lambda>c. case body c of (c', Inl e) \<Rightarrow> handler e c' | (c', Inr x) \<Rightarrow> (c', Inr x))"

text \<open>The chain of plain reads \<open>v.k1.k2 ...\<close>.\<close>

fun read :: "jsval \<Rightarrow> string list \<Rightarrow> jsval js" where
  "read v [] = ret v"
| "read v (k # ks) = bind (lift (get_prop v k)) (\<lambda>x. read x ks)"

definition get_currentToolUseId :: "jsval js" where
  "get_currentToolUseId = (\<lambda>c. (c, Inr c))"

definition set_currentToolUseId :: "jsval \<Rightarrow> unit js" where
  "set_currentToolUseId i = (\<lambda>c. (i, Inr ()))"

text \<open>
  The body of the \<open>try\<close> block. \<open>JSON.parse\<close> is a parameter: it returns the decoded
  value or throws a \<open>SyntaxError\<close>. Every branch that calls \<open>callback\<close> returns right
  after the call, so a computation returns the list of events it passed to \<open>callback\<close>
  (and the list of strings it logged, which is empty inside the block).
\<close>

definition converse_try ::
  "(string \<Rightarrow> js_error + jsval) \<Rightarrow> string \<Rightarrow> (jsval StreamEvent list \<times> string list) js" where
  "converse_try JSON_parse data =
     bind (lift (JSON_parse data)) (\<lambda>json.
     bind (read json [''event'']) (\<lambda>event.
     if truthy event then
       bind (read event [''contentBlockDelta'']) (\<lambda>d1.
       if truthy (opt_path d1 [''delta'', ''text'']) then
         bind (read event [''contentBlockDelta'', ''delta'', ''text'']) (\<lambda>t.
         ret ([Text t], []))
       else
       bind (read event [''contentBlockStart'']) (\<lambda>d2.
       if truthy (opt_path d2 [''start'', ''toolUse'']) then
         bind (read event [''contentBlockStart'', ''start'', ''toolUse'']) (\<lambda>toolUse.
         bind (read toolUse [''toolUseId'']) (\<lambda>i.
         bind (set_currentToolUseId i) (\<lambda>_.
         bind (read toolUse [''toolUseId'']) (\<lambda>i'.
         bind (read toolUse [''name'']) (\<lambda>n.
         ret ([ToolUseStart i' n], []))))))
       else
       bind (read event [''contentBlockDelta'']) (\<lambda>d3.
       if truthy (opt_path d3 [''delta'', ''toolUse'', ''input'']) then
         bind (read event [''contentBlockDelta'', ''delta'', ''toolUse'', ''input'']) (\<lambda>inp.
         bind get_currentToolUseId (\<lambda>c.
         ret ([ToolUseDelta c inp], [])))
       else
       bind (read event [''messageStop'']) (\<lambda>d4.
       if truthy (opt_path d4 [''stopReason'']) then
         bind (read event [''messageStop'', ''stopReason'']) (\<lambda>r.
         ret ([ResultEvent r], []))
       else
       bind (read event [''messageStart'']) (\<lambda>d5.
       if truthy d5 then ret ([Lifecycle (JStr ''message_start'')], [])
       else ret ([], []))))))
     else
       bind (read json [''result'']) (\<lambda>r.
       if truthy r then
         bind (read json [''result'']) (\<lambda>r'.
         if typeof r' = ''object'' then
           bind (read json [''result'', ''stop_reason'']) (\<lambda>sr. ret ([ResultEvent sr], []))
         else ret ([ResultEvent (JStr ''end_turn'')], []))
       else ret ([], []))))"

text \<open>
  The parser: the prefix test, the empty-payload test, then the \<open>try\<close> block, whose
  \<open>catch\<close> clause logs the payload with \<open>console.debug\<close> and returns.
\<close>

definition parseConverseChunk ::
  "(string \<Rightarrow> js_error + jsval) \<Rightarrow> string \<Rightarrow> (jsval StreamEvent list \<times> string list) js" where
  "parseConverseChunk JSON_parse line =
     (if \<not> startsWith line ''data: '' then ret ([], [])
      else
        let data = trim (substring line 6) in
        if data = [] then ret ([], [])
        else try_catch (converse_try JSON_parse data) (\<lambda>e. ret ([], [data])))"

text \<open>
  Modelled from the spec: the stream driver (client.ts) is not among the sources. It
  invokes the parser once per line, in arrival order, and forwards every emitted event.
  \<open>currentToolUseId\<close> is a variable of the module, so it lives on between the calls
  and between turns.
\<close>

fun parseLines :: "(string \<Rightarrow> js_error + jsval) \<Rightarrow> string list \<Rightarrow> (jsval StreamEvent list) js" where
  "parseLines JSON_parse [] = ret []"
| "parseLines JSON_parse (l # ls) =
     bind (parseConverseChunk JSON_parse l) (\<lambda>r.
     bind (parseLines JSON_parse ls) (\<lambda>evs. ret (fst r @ evs)))"

section \<open>Notions used in the statements\<close>

text \<open>The content a \<open>text\<close> event carries; other events carry no text.\<close>

definition event_text :: "string StreamEvent \<Rightarrow> string" where
  "event_text e = (case e of Text c \<Rightarrow> c | _ \<Rightarrow> [])"

text \<open>The segment list of a message, empty while the optional field is absent.\<close>

definition message_segments :: "Message \<Rightarrow> nat list" where
  "message_segments m = (case msg_segments m of None \<Rightarrow> [] | Some l \<Rightarrow> l)"

text \<open>
  The concatenation, in order, of the contents of the text segments of a list of
  segments, where a tool segment adds nothing; and the segments that a list of
  references stands for.
\<close>

fun concat_text :: "MessageSegment list \<Rightarrow> string" where
  "concat_text [] = []"
| "concat_text (TextSegment c # segs) = c @ concat_text segs"
| "concat_text (ToolSegment a # segs) = concat_text segs"

definition deref_segments :: "MessageSegment list \<Rightarrow> nat list \<Rightarrow> MessageSegment list" where
  "deref_segments objs addrs = map (\<lambda>a. objs ! a) addrs"

text \<open>
  \<open>status_path x y\<close>: status \<open>y\<close> is reached from \<open>x\<close> by zero or more moves along
  streaming \<open>\<rightarrow>\<close> executing \<open>\<rightarrow>\<close> complete or streaming \<open>\<rightarrow>\<close> complete.
\<close>

fun status_path :: "ToolCallStatus \<Rightarrow> ToolCallStatus \<Rightarrow> bool" where
  "status_path streaming _ = True"
| "status_path executing streaming = False"
| "status_path executing _ = True"
| "status_path complete complete = True"
| "status_path complete _ = False"

text \<open>The event categories of the tie-break rule, and the category of an event.\<close>

datatype category = CToolResult | CToolUseStart | CToolUseDelta | CText | CMessage | CResult | CLifecycle

fun category_of :: "'v StreamEvent \<Rightarrow> category" where
  "category_of (Text c) = CText"
| "category_of (ToolUseStart i n) = CToolUseStart"
| "category_of (ToolUseDelta i d) = CToolUseDelta"
| "category_of (ToolResult i r) = CToolResult"
| "category_of (MessageEvent r) = CMessage"
| "category_of (ResultEvent r) = CResult"
| "category_of (Lifecycle l) = CLifecycle"

text \<open>
  Which categories the \<open>event\<close> object of a frame could match, each taken alone: the
  sub-structure that the parser derives the category from is present. The Converse
  schema has no sub-structure for tool results or message boundaries.
\<close>

fun converse_matches :: "jsval \<Rightarrow> category \<Rightarrow> bool" where
  "converse_matches event CText = truthy (opt_path event [''contentBlockDelta'', ''delta'', ''text''])"
| "converse_matches event CToolUseStart = truthy (opt_path event [''contentBlockStart'', ''start'', ''toolUse''])"
| "converse_matches event CToolUseDelta =
     truthy (opt_path event [''contentBlockDelta'', ''delta'', ''toolUse'', ''input''])"
| "converse_matches event CResult = truthy (opt_path event [''messageStop'', ''stopReason''])"
| "converse_matches event CLifecycle = truthy (opt_path event [''messageStart''])"
| "converse_matches event CToolResult = False"
| "converse_matches event CMessage = False"

text \<open>The precedence order the tie-break rule names, and the order of the parser's tests.\<close>

definition spec_precedence :: "category list" where
  "spec_precedence = [CToolResult, CToolUseStart, CToolUseDelta, CText, CMessage, CResult, CLifecycle]"

definition converse_precedence :: "category list" where
  "converse_precedence = [CText, CToolUseStart, CToolUseDelta, CResult, CLifecycle]"

text \<open>
  \<open>reattribute c evs\<close> gives every \<open>tool_use_delta\<close> that comes before the first
  \<open>tool_use_start\<close> of \<open>evs\<close> the id \<open>c\<close>; \<open>last_start c evs\<close> is the id of the last
  \<open>tool_use_start\<close> of \<open>evs\<close>, and \<open>c\<close> when there is none.
\<close>

fun reattribute :: "'v \<Rightarrow> 'v StreamEvent list \<Rightarrow> 'v StreamEvent list" where
  "reattribute c [] = []"
| "reattribute c (ToolUseStart i n # es) = ToolUseStart i n # es"
| "reattribute c (ToolUseDelta i d # es) = ToolUseDelta c d # reattribute c es"
| "reattribute c (e # es) = e # reattribute c es"

fun last_start :: "'v \<Rightarrow> 'v StreamEvent list \<Rightarrow> 'v" where
  "last_start c [] = c"
| "last_start c (ToolUseStart i n # es) = last_start i es"
| "last_start c (e # es) = last_start c es"

text \<open>
  The values \<open>JSON.parse\<close> returns on the payloads of the example frames below; a string
  outside the table stands for a payload that is not well-formed JSON.
\<close>

definition frames :: "(string \<times> jsval) list" where
  \<open>frames =
    [(''{"event":{"contentBlockDelta":{"delta":{"text":"hi"}},"contentBlockStart":{"start":{"toolUse":{"toolUseId":"t1","name":"f"}}}}}'',
      JObj [(''event'', JObj [(''contentBlockDelta'', JObj [(''delta'', JObj [(''text'', JStr ''hi'')])]),
                             (''contentBlockStart'', JObj [(''start'', JObj [(''toolUse'',
                                 JObj [(''toolUseId'', JStr ''t1''), (''name'', JStr ''f'')])])])])]),
     (''{"event":{"contentBlockStart":{"start":{"toolUse":{"toolUseId":"t1","name":"f"}}}}}'',
      JObj [(''event'', JObj [(''contentBlockStart'', JObj [(''start'', JObj [(''toolUse'',
                                 JObj [(''toolUseId'', JStr ''t1''), (''name'', JStr ''f'')])])])])]),
     (''{"event":{"contentBlockDelta":{"delta":{"toolUse":{"input":"{}"}}}}}'',
      JObj [(''event'', JObj [(''contentBlockDelta'', JObj [(''delta'', JObj [(''toolUse'',
                                 JObj [(''input'', JStr ''{}'')])])])])]),
     (''{"result":{}}'', JObj [(''result'', JObj [])]),
     (''{"result":true}'', JObj [(''result'', JBool True)]),
     (''{"result":{"stop_reason":"max_tokens"}}'',
      JObj [(''result'', JObj [(''stop_reason'', JStr ''max_tokens'')])])]\<close>

definition JSON_parse_frames :: "string \<Rightarrow> js_error + jsval" where
  "JSON_parse_frames s = (case map_of frames s of Some v \<Rightarrow> Inr v | None \<Rightarrow> Inl SyntaxError)"

section \<open>Notions used in the proofs\<close>

text \<open>
  What the parser does with the \<open>event\<close> object once every read is known to succeed;
  \<open>converse_try_event\<close> below shows that the \<open>try\<close> block computes this.
\<close>

definition converse_event :: "jsval \<Rightarrow> (jsval StreamEvent list \<times> string list) js" where
  "converse_event event c =
    (if truthy (opt_path event [''contentBlockDelta'', ''delta'', ''text''])
     then (c, Inr ([Text (opt_path event [''contentBlockDelta'', ''delta'', ''text''])], []))
     else if truthy (opt_path event [''contentBlockStart'', ''start'', ''toolUse''])
     then (lookup (opt_path event [''contentBlockStart'', ''start'', ''toolUse'']) ''toolUseId'',
           Inr ([ToolUseStart (lookup (opt_path event [''contentBlockStart'', ''start'', ''toolUse'']) ''toolUseId'')
                              (lookup (opt_path event [''contentBlockStart'', ''start'', ''toolUse'']) ''name'')], []))
     else if truthy (opt_path event [''contentBlockDelta'', ''delta'', ''toolUse'', ''input''])
     then (c, Inr ([ToolUseDelta c (opt_path event [''contentBlockDelta'', ''delta'', ''toolUse'', ''input''])], []))
     else if truthy (opt_path event [''messageStop'', ''stopReason''])
     then (c, Inr ([ResultEvent (opt_path event [''messageStop'', ''stopReason''])], []))
     else if truthy (opt_path event [''messageStart''])
     then (c, Inr ([Lifecycle (JStr ''message_start'')], []))
     else (c, Inr ([], [])))"

text \<open>The text of all text segment objects, in the order of their addresses.\<close>

definition all_text :: "MessageSegment list \<Rightarrow> string" where
  "all_text objs = concat (map segment_content (filter is_text objs))"

text \<open>
  The invariant of the assembler: \<open>segments\<close> lists every segment object once, in the
  order of allocation; every reference to a \<open>ToolCall\<close> is allocated; each entry of
  \<open>toolCallMap\<close> refers to a \<open>ToolCall\<close> that carries the entry's key and is wrapped by
  a tool segment.
\<close>

definition wf :: "assembler \<Rightarrow> bool" where
  "wf s \<longleftrightarrow>
     segments s = [0..<length (segmentObjs s)]
   \<and> (\<forall>a. ToolSegment a \<in> set (segmentObjs s) \<longrightarrow> a < length (toolCalls s))
   \<and> (\<forall>k a. map_of (toolCallMap s) k = Some a \<longrightarrow>
          a < length (toolCalls s) \<and> toolUseId (toolCalls s ! a) = k \<and> ToolSegment a \<in> set (segmentObjs s))"

text \<open>The message mirrors the segments: its content and its copy of the segment list.\<close>

definition msg_ok :: "assembler \<Rightarrow> bool" where
  "msg_ok s \<longleftrightarrow>
     content (message s) = text_of_segments (segmentObjs s) (segments s)
   \<and> (case msg_segments (message s) of None \<Rightarrow> segments s = [] | Some l \<Rightarrow> l = segments s)"

text \<open>
  The call registered under id \<open>i\<close> is complete already, or the last segment is a tool
  segment, so that the next \<open>text\<close> event completes it.
\<close>

definition complete_or_pending :: "string \<Rightarrow> assembler \<Rightarrow> bool" where
  "complete_or_pending i s \<longleftrightarrow>
     (\<exists>a. map_of (toolCallMap s) i = Some a \<and>
        (status (toolCalls s ! a) = complete \<or> (\<exists>p b. last_segment s = Some (p, ToolSegment b))))"

section \<open>Auxiliary lemmas\<close>

lemma length_for_each [simp]: "length (for_each_toolCall f as h) = length h"
  by (induction as arbitrary: h) auto

lemma for_each_field:
  assumes "\<And>tc. g (f tc) = g tc"
  shows "g (for_each_toolCall f as h ! a) = g (h ! a)"
proof (induction as arbitrary: h)
  case Nil
  then show ?case by simp
next
  case (Cons b bs)
  show ?case
  proof (cases "b = a \<and> b < length h")
    case True
    then show ?thesis using Cons assms by simp
  next
    case False
    then have "h[b := f (h ! b)] ! a = h ! a"
      by (cases "b = a") (auto simp: list_update_beyond)
    then show ?thesis using Cons by simp
  qed
qed

lemma map_of_map_set: "map_of (map_set k v m) = (map_of m)(k \<mapsto> v)"
  by (induction m) (auto simp: fun_eq_iff)

lemma text_of_segments_upt:
  "text_of_segments objs [0..<length objs] = all_text objs"
  by (simp add: text_of_segments_def all_text_def map_nth)

lemma last_segment_wf:
  "segments s = [0..<length (segmentObjs s)] \<Longrightarrow>
   last_segment s = (if segmentObjs s = [] then None
                     else Some (length (segmentObjs s) - 1, last (segmentObjs s)))"
  by (auto simp: last_segment_def last_conv_nth)

lemma all_text_append [simp]: "all_text (xs @ ys) = all_text xs @ all_text ys"
  by (simp add: all_text_def)

lemma all_text_simps [simp]:
  "all_text [] = []"
  "all_text (TextSegment c # xs) = c @ all_text xs"
  "all_text (ToolSegment a # xs) = all_text xs"
  by (simp_all add: all_text_def is_text_def segment_content_def)

lemma update_last:
  "xs \<noteq> [] \<Longrightarrow> xs[length xs - 1 := y] = butlast xs @ [y]"
  by (induction xs rule: rev_induct) auto

lemma wf_init: "wf (init ts)"
  by (simp add: wf_def init_def)

lemma wf_updateMessage [simp]: "wf (updateMessage s) = wf s"
  by (simp add: wf_def updateMessage_def)

lemma wf_push_text: "wf s \<Longrightarrow> wf (push_segment (TextSegment c) s)"
  by (auto simp: wf_def push_segment_def)

lemma wf_complete_pending: "wf s \<Longrightarrow> wf (complete_pending s)"
  by (auto simp: wf_def complete_pending_def for_each_field [of toolUseId] mark_complete_def
           split: option.splits MessageSegment.splits)

lemma wf_append_text: "wf s \<Longrightarrow> wf (append_text c s)"
proof -
  assume w: "wf s"
  show ?thesis
  proof (cases "last_segment s")
    case None
    then show ?thesis using w by (simp add: append_text_def wf_push_text)
  next
    case (Some p)
    obtain a seg where p: "p = (a, seg)" by (cases p)
    show ?thesis
    proof (cases seg)
      case (ToolSegment x)
      then show ?thesis using w Some p by (simp add: append_text_def wf_push_text)
    next
      case (TextSegment old)
      from w have seg: "segments s = [0..<length (segmentObjs s)]" by (simp add: wf_def)
      from Some p TextSegment seg have ne: "segmentObjs s \<noteq> []"
        and a: "a = length (segmentObjs s) - 1" and l: "last (segmentObjs s) = TextSegment old"
        by (auto simp: last_segment_wf split: if_splits)
      have "set ((segmentObjs s)[a := TextSegment (old @ c)]) \<subseteq> insert (TextSegment (old @ c)) (set (segmentObjs s))"
        by (rule set_update_subset_insert)
      moreover have "ToolSegment b \<in> set (segmentObjs s)" if "ToolSegment b \<in> set ((segmentObjs s)[a := TextSegment (old @ c)])" for b
        using that calculation by auto
      moreover have "ToolSegment b \<in> set ((segmentObjs s)[a := TextSegment (old @ c)])" if "ToolSegment b \<in> set (segmentObjs s)" for b
      proof -
        from that obtain j where j: "j < length (segmentObjs s)" "segmentObjs s ! j = ToolSegment b"
          by (auto simp: in_set_conv_nth)
        with l ne a have "j \<noteq> a" by (auto simp: last_conv_nth)
        with j have "(segmentObjs s)[a := TextSegment (old @ c)] ! j = ToolSegment b" by simp
        with j show ?thesis by (metis length_list_update nth_mem)
      qed
      ultimately show ?thesis using w Some p TextSegment
        by (auto simp: append_text_def wf_def)
    qed
  qed
qed

lemma wf_handleEvent: "wf s \<Longrightarrow> wf (handleEvent s e)"
proof (cases e)
  case (Text c)
  assume "wf s" then show ?thesis using Text by (simp add: wf_append_text wf_complete_pending)
next
  case (ToolUseStart i n)
  assume "wf s" then show ?thesis using ToolUseStart
    by (fastforce simp: wf_def updateMessage_def push_segment_def map_of_map_set nth_append less_Suc_eq)
next
  case (ToolUseDelta i d)
  assume "wf s" then show ?thesis using ToolUseDelta
    by (auto simp: wf_def updateMessage_def map_get_def nth_list_update split: option.splits)
next
  case (ToolResult i r)
  assume "wf s" then show ?thesis using ToolResult
    by (auto simp: wf_def updateMessage_def map_get_def nth_list_update split: option.splits)
next
  case (MessageEvent r)
  assume "wf s" then show ?thesis using MessageEvent
    by (auto simp: wf_def updateMessage_def for_each_field [of toolUseId] mark_executing_def)
qed simp_all

lemma handleEvents_Nil [simp]: "handleEvents s [] = s"
  by (simp add: handleEvents_def)

lemma handleEvents_Cons [simp]: "handleEvents s (e # evs) = handleEvents (handleEvent s e) evs"
  by (simp add: handleEvents_def)

lemma handleEvents_append: "handleEvents s (xs @ ys) = handleEvents (handleEvents s xs) ys"
  by (simp add: handleEvents_def)

lemma wf_handleEvents: "wf s \<Longrightarrow> wf (handleEvents s evs)"
  by (induction evs arbitrary: s) (simp_all add: wf_handleEvent)

lemma wf_reachable: "wf (handleEvents (init ts) evs)"
  by (simp add: wf_handleEvents wf_init)

lemma for_each_invariant:
  assumes "\<And>tc. P tc \<Longrightarrow> P (f tc)" and "P (h ! a)"
  shows "P (for_each_toolCall f as h ! a)"
  using assms(2)
proof (induction as arbitrary: h)
  case Nil
  then show ?case by simp
next
  case (Cons b bs)
  have "P (h[b := f (h ! b)] ! a)"
  proof (cases "b = a \<and> b < length h")
    case True
    then show ?thesis using Cons.prems assms(1) by simp
  next
    case False
    then have "h[b := f (h ! b)] ! a = h ! a"
      by (cases "b = a") (auto simp: list_update_beyond)
    then show ?thesis using Cons.prems by simp
  qed
  then show ?case using Cons.IH by simp
qed

lemma status_mark_complete [simp]: "status (mark_complete tc) = complete"
  by (cases "status tc") (simp_all add: mark_complete_def)

lemma for_each_mark_complete:
  "a \<in> set as \<Longrightarrow> a < length h \<Longrightarrow> status (for_each_toolCall mark_complete as h ! a) = complete"
proof (induction as arbitrary: h)
  case Nil
  then show ?case by simp
next
  case (Cons b bs)
  show ?case
  proof (cases "b = a")
    case True
    with Cons.prems have "status (h[b := mark_complete (h ! b)] ! a) = complete" by simp
    then have "status (for_each_toolCall mark_complete bs (h[b := mark_complete (h ! b)]) ! a) = complete"
      by (rule for_each_invariant [where P = "\<lambda>tc. status tc = complete", rotated]) simp
    then show ?thesis by simp
  next
    case False
    with Cons.prems have "a \<in> set bs" by simp
    then show ?thesis using Cons.IH [of "h[b := mark_complete (h ! b)]"] Cons.prems by simp
  qed
qed

lemma segmentObjs_complete_pending [simp]: "segmentObjs (complete_pending s) = segmentObjs s"
  and segments_complete_pending [simp]: "segments (complete_pending s) = segments s"
  and toolCallMap_complete_pending [simp]: "toolCallMap (complete_pending s) = toolCallMap s"
  and message_complete_pending [simp]: "message (complete_pending s) = message s"
  by (simp_all add: complete_pending_def split: option.splits MessageSegment.splits)

lemma last_segment_complete_pending [simp]: "last_segment (complete_pending s) = last_segment s"
  by (simp add: last_segment_def)

lemma all_text_append_text:
  assumes "segments s = [0..<length (segmentObjs s)]"
  shows "all_text (segmentObjs (append_text c s)) = all_text (segmentObjs s) @ c"
proof (cases "segmentObjs s = []")
  case True
  then show ?thesis using assms by (simp add: append_text_def last_segment_wf push_segment_def)
next
  case False
  then obtain xs x where xs: "segmentObjs s = xs @ [x]" by (metis rev_exhaust)
  show ?thesis
  proof (cases x)
    case (TextSegment old)
    then show ?thesis using assms xs
      by (simp add: append_text_def last_segment_wf)
  next
    case (ToolSegment b)
    then show ?thesis using assms xs
      by (simp add: append_text_def last_segment_wf push_segment_def)
  qed
qed

lemma all_text_handleEvent:
  assumes "wf s"
  shows "all_text (segmentObjs (handleEvent s e)) = all_text (segmentObjs s) @ event_text e"
proof (cases e)
  case (Text c)
  from assms have "segments (complete_pending s) = [0..<length (segmentObjs (complete_pending s))]"
    by (simp add: wf_def)
  from all_text_append_text [OF this, of c] show ?thesis using Text
    by (simp add: updateMessage_def event_text_def)
qed (simp_all add: updateMessage_def event_text_def push_segment_def split: option.splits)

lemma all_text_handleEvents:
  "wf s \<Longrightarrow> all_text (segmentObjs (handleEvents s evs)) = all_text (segmentObjs s) @ concat (map event_text evs)"
  by (induction evs arbitrary: s) (simp_all add: all_text_handleEvent wf_handleEvent)

lemma text_of_segments_wf: "wf s \<Longrightarrow> text_of_segments (segmentObjs s) (segments s) = all_text (segmentObjs s)"
  by (simp add: wf_def text_of_segments_upt)

lemma msg_ok_updateMessage [simp]: "msg_ok (updateMessage s)"
  by (simp add: msg_ok_def updateMessage_def)

lemma msg_ok_handleEvent: "msg_ok s \<Longrightarrow> msg_ok (handleEvent s e)"
  by (cases e) simp_all

lemma msg_ok_handleEvents: "msg_ok s \<Longrightarrow> msg_ok (handleEvents s evs)"
  by (induction evs arbitrary: s) (simp_all add: msg_ok_handleEvent)

lemma msg_ok_init: "msg_ok (init ts)"
  by (simp add: msg_ok_def init_def assistantResponse_def text_of_segments_def)

lemma status_path_refl [simp]: "status_path x x"
  by (cases x) simp_all

lemma status_path_trans: "status_path x y \<Longrightarrow> status_path y z \<Longrightarrow> status_path x z"
  by (cases x; cases y; cases z) simp_all

lemma status_path_complete [simp]: "status_path x complete"
  by (cases x) simp_all

lemma status_path_mark_complete: "status_path x (status tc) \<Longrightarrow> status_path x (status (mark_complete tc))"
  by simp

lemma status_path_mark_executing: "status_path x (status tc) \<Longrightarrow> status_path x (status (mark_executing tc))"
  by (cases x; cases "status tc") (simp_all add: mark_executing_def)

lemma toolCalls_append_text [simp]: "toolCalls (append_text c s) = toolCalls s"
  by (simp add: append_text_def push_segment_def split: option.splits MessageSegment.splits)

lemma toolCalls_updateMessage [simp]: "toolCalls (updateMessage s) = toolCalls s"
  and segments_updateMessage [simp]: "segments (updateMessage s) = segments s"
  and segmentObjs_updateMessage [simp]: "segmentObjs (updateMessage s) = segmentObjs s"
  and toolCallMap_updateMessage [simp]: "toolCallMap (updateMessage s) = toolCallMap s"
  by (simp_all add: updateMessage_def)

lemma toolCalls_push [simp]: "toolCalls (push_segment seg s) = toolCalls s"
  by (simp add: push_segment_def)

lemma status_complete_pending:
  "status_path (status (toolCalls s ! a)) (status (toolCalls (complete_pending s) ! a))"
proof (cases "\<exists>p b. last_segment s = Some (p, ToolSegment b)")
  case True
  then have "toolCalls (complete_pending s) =
      for_each_toolCall mark_complete (map_values (toolCallMap s)) (toolCalls s)"
    by (auto simp: complete_pending_def)
  then show ?thesis
    using for_each_invariant [where P = "\<lambda>tc. status_path (status (toolCalls s ! a)) (status tc)"
        and f = mark_complete and h = "toolCalls s" and a = a]
    by simp
next
  case False
  then have "complete_pending s = s"
    by (auto simp: complete_pending_def split: option.splits MessageSegment.splits)
  then show ?thesis by simp
qed

lemma nth_update_any: "a < length xs \<Longrightarrow> xs[b := y] ! a = (if b = a then y else xs ! a)"
  by (cases "b = a") auto

lemma length_toolCalls_handleEvent: "length (toolCalls s) \<le> length (toolCalls (handleEvent s e))"
  by (cases e) (simp_all add: complete_pending_def split: option.splits MessageSegment.splits)

lemma status_handleEvent:
  assumes "a < length (toolCalls s)"
  shows "status_path (status (toolCalls s ! a)) (status (toolCalls (handleEvent s e) ! a))"
proof (cases e)
  case (Text c)
  then show ?thesis using status_complete_pending [of s a] by simp
next
  case (ToolUseStart i n)
  then show ?thesis using assms by (simp add: nth_append)
next
  case (ToolUseDelta i d)
  then show ?thesis using assms by (auto simp: nth_update_any split: option.splits)
next
  case (ToolResult i r)
  then show ?thesis using assms by (auto simp: nth_update_any split: option.splits)
next
  case (MessageEvent r)
  then show ?thesis
    using for_each_invariant [where P = "\<lambda>tc. status_path (status (toolCalls s ! a)) (status tc)"
        and f = mark_executing and h = "toolCalls s" and a = a]
    by (simp add: status_path_mark_executing)
qed simp_all

lemma last_segment_updateMessage [simp]: "last_segment (updateMessage s) = last_segment s"
  by (simp add: last_segment_def updateMessage_def)

lemma toolCallMap_append_text [simp]: "toolCallMap (append_text c s) = toolCallMap s"
  by (simp add: append_text_def push_segment_def split: option.splits MessageSegment.splits)

lemma last_segment_push:
  "segments s = [0..<length (segmentObjs s)] \<Longrightarrow>
   last_segment (push_segment seg s) = Some (length (segmentObjs s), seg)"
  by (simp add: last_segment_def push_segment_def)

lemma complete_after_text:
  assumes "wf s" and "complete_or_pending i s"
  shows "\<exists>a. map_of (toolCallMap (handleEvent s (Text c))) i = Some a
           \<and> status (toolCalls (handleEvent s (Text c)) ! a) = complete"
proof -
  from assms(2) obtain a where a: "map_of (toolCallMap s) i = Some a"
    and d: "status (toolCalls s ! a) = complete \<or> (\<exists>p b. last_segment s = Some (p, ToolSegment b))"
    by (auto simp: complete_or_pending_def)
  from assms(1) a have lt: "a < length (toolCalls s)" by (simp add: wf_def)
  from a have mem: "a \<in> set (map_values (toolCallMap s))"
    by (force simp: map_values_def dest: map_of_SomeD)
  have "status (toolCalls (complete_pending s) ! a) = complete"
  proof (cases "\<exists>p b. last_segment s = Some (p, ToolSegment b)")
    case True
    then have "toolCalls (complete_pending s) =
        for_each_toolCall mark_complete (map_values (toolCallMap s)) (toolCalls s)"
      by (auto simp: complete_pending_def)
    then show ?thesis using for_each_mark_complete [OF mem lt] by simp
  next
    case False
    with d have "status (toolCalls s ! a) = complete" by simp
    with status_complete_pending [of s a] show ?thesis
      by (cases "status (toolCalls (complete_pending s) ! a)") simp_all
  qed
  with a show ?thesis by simp
qed

lemma complete_or_pending_start: "wf s \<Longrightarrow> complete_or_pending i (handleEvent s (ToolUseStart i n))"
  by (simp add: complete_or_pending_def map_of_map_set last_segment_push wf_def push_segment_def last_segment_def)

lemma complete_or_pending_handleEvent:
  assumes "wf s" and "complete_or_pending i s"
  shows "complete_or_pending i (handleEvent s e)"
proof (cases e)
  case (Text c)
  from complete_after_text [OF assms, of c] show ?thesis using Text
    by (auto simp: complete_or_pending_def)
next
  case (ToolUseStart j n)
  show ?thesis
  proof (cases "j = i")
    case True
    then show ?thesis using ToolUseStart complete_or_pending_start [OF assms(1)] by simp
  next
    case False
    from assms obtain a where a: "map_of (toolCallMap s) i = Some a" by (auto simp: complete_or_pending_def)
    from assms(1) have "segments s = [0..<length (segmentObjs s)]" by (simp add: wf_def)
    then show ?thesis using ToolUseStart False a
      by (simp add: complete_or_pending_def map_of_map_set push_segment_def last_segment_def)
  qed
next
  case (ToolUseDelta j d)
  from assms obtain a where a: "map_of (toolCallMap s) i = Some a"
    and d: "status (toolCalls s ! a) = complete \<or> (\<exists>p b. last_segment s = Some (p, ToolSegment b))"
    by (auto simp: complete_or_pending_def)
  from assms(1) a have lt: "a < length (toolCalls s)" by (simp add: wf_def)
  have ls: "last_segment (handleEvent s e) = last_segment s"
    using ToolUseDelta by (simp add: last_segment_def split: option.splits)
  have "status (toolCalls (handleEvent s e) ! a) = status (toolCalls s ! a)"
    using ToolUseDelta lt by (simp add: nth_update_any split: option.splits)
  moreover have "toolCallMap (handleEvent s e) = toolCallMap s"
    using ToolUseDelta by (simp split: option.splits)
  ultimately show ?thesis using a d ls by (auto simp: complete_or_pending_def)
next
  case (ToolResult j r)
  from assms obtain a where a: "map_of (toolCallMap s) i = Some a"
    and d: "status (toolCalls s ! a) = complete \<or> (\<exists>p b. last_segment s = Some (p, ToolSegment b))"
    by (auto simp: complete_or_pending_def)
  from assms(1) a have lt: "a < length (toolCalls s)" by (simp add: wf_def)
  have ls: "last_segment (handleEvent s e) = last_segment s"
    using ToolResult by (simp add: last_segment_def split: option.splits)
  have "status (toolCalls s ! a) = complete \<Longrightarrow> status (toolCalls (handleEvent s e) ! a) = complete"
    using ToolResult lt by (simp add: nth_update_any split: option.splits)
  moreover have "toolCallMap (handleEvent s e) = toolCallMap s"
    using ToolResult by (simp split: option.splits)
  ultimately show ?thesis using a d ls by (auto simp: complete_or_pending_def)
next
  case (MessageEvent r)
  from assms obtain a where a: "map_of (toolCallMap s) i = Some a"
    and d: "status (toolCalls s ! a) = complete \<or> (\<exists>p b. last_segment s = Some (p, ToolSegment b))"
    by (auto simp: complete_or_pending_def)
  have ls: "last_segment (handleEvent s e) = last_segment s"
    using MessageEvent by (simp add: last_segment_def)
  have "status (toolCalls s ! a) = complete \<Longrightarrow> status (toolCalls (handleEvent s e) ! a) = complete"
    using status_handleEvent [of a s e] a assms(1)
    by (cases "status (toolCalls (handleEvent s e) ! a)") (auto simp: wf_def)
  moreover have "toolCallMap (handleEvent s e) = toolCallMap s"
    using MessageEvent by simp
  ultimately show ?thesis using a d ls by (auto simp: complete_or_pending_def)
next
  case (ResultEvent r)
  then show ?thesis using assms by simp
next
  case (Lifecycle l)
  then show ?thesis using assms by simp
qed

lemma complete_or_pending_handleEvents: "wf s \<Longrightarrow> complete_or_pending i s \<Longrightarrow> complete_or_pending i (handleEvents s evs)"
  by (induction evs arbitrary: s) (simp_all add: complete_or_pending_handleEvent wf_handleEvent)

lemmas run_simps = init_def assistantResponse_def updateMessage_def push_segment_def map_get_def
  map_values_def last_segment_def complete_pending_def append_text_def text_of_segments_def
  mark_complete_def mark_executing_def is_text_def segment_content_def

lemma dup_pre:
  "handleEvents (init ''t0'') [ToolUseStart ''t1'' ''calc'', ToolUseDelta ''t1'' ''{}'']
   = \<lparr>toolCalls = [\<lparr>toolUseId = ''t1'', name = ''calc'', input = ''{}'', result = None, status = streaming\<rparr>],
      segmentObjs = [ToolSegment 0], segments = [0], toolCallMap = [(''t1'', 0)],
      message = \<lparr>role = ''assistant'', content = [], timestamp = ''t0'', msg_segments = Some [0]\<rparr>\<rparr>"
  by (simp add: run_simps)

lemma dup_post:
  "handleEvent \<lparr>toolCalls = [\<lparr>toolUseId = ''t1'', name = ''calc'', input = ''{}'', result = None, status = streaming\<rparr>],
      segmentObjs = [ToolSegment 0], segments = [0], toolCallMap = [(''t1'', 0)],
      message = \<lparr>role = ''assistant'', content = [], timestamp = ''t0'', msg_segments = Some [0]\<rparr>\<rparr>
     (ToolUseStart ''t1'' ''calc'')
   = \<lparr>toolCalls = [\<lparr>toolUseId = ''t1'', name = ''calc'', input = ''{}'', result = None, status = streaming\<rparr>,
                   \<lparr>toolUseId = ''t1'', name = ''calc'', input = [], result = None, status = streaming\<rparr>],
      segmentObjs = [ToolSegment 0, ToolSegment 1], segments = [0, 1], toolCallMap = [(''t1'', 1)],
      message = \<lparr>role = ''assistant'', content = [], timestamp = ''t0'', msg_segments = Some [0, 1]\<rparr>\<rparr>"
  by (simp add: run_simps)

lemma map_fst_map_set: "map_of m k = Some a \<Longrightarrow> map fst (map_set k v m) = map fst m"
  by (induction m) (auto split: if_splits)

lemma truthy_not_nullish: "truthy v \<Longrightarrow> \<not> nullish v"
  by (cases v) simp_all

lemma lookup_nullish [simp]: "nullish v \<Longrightarrow> lookup v k = JUndefined"
  by (cases v) simp_all

lemma opt_path_undefined [simp]: "opt_path JUndefined ks = JUndefined"
  by (cases ks) simp_all

lemma read_truthy: "truthy (opt_path v ks) \<Longrightarrow> read v ks c = (c, Inr (opt_path v ks))"
proof (induction ks arbitrary: v)
  case Nil
  then show ?case by (simp add: ret_def)
next
  case (Cons k ks)
  from Cons.prems have n: "\<not> nullish v" by (auto split: if_splits)
  with Cons.prems have "truthy (opt_path (lookup v k) ks)" by simp
  from Cons.IH [OF this] n show ?case by (simp add: bind_def lift_def get_prop_def)
qed

lemma read_single: "\<not> nullish v \<Longrightarrow> read v [k] c = (c, Inr (lookup v k))"
  by (simp add: bind_def lift_def get_prop_def ret_def)

lemma read_nullish: "nullish v \<Longrightarrow> read v (k # ks) c = (c, Inl TypeError)"
  by (simp add: bind_def lift_def get_prop_def)

declare read.simps [simp del] opt_path.simps [simp del]

lemma opt_path_lookup_nn: "\<not> nullish v \<Longrightarrow> opt_path (lookup v k) ks = opt_path v (k # ks)"
  by (simp add: opt_path.simps)

lemma opt_path_Nil [simp]: "opt_path v [] = v"
  by (simp add: opt_path.simps)

lemma bind_read_single: "\<not> nullish v \<Longrightarrow> bind (read v [k]) f c = f (lookup v k) c"
  by (simp add: bind_def read_single)

lemma bind_read_truthy: "truthy (opt_path v ks) \<Longrightarrow> bind (read v ks) f c = f (opt_path v ks) c"
  by (simp add: bind_def read_truthy)

lemma converse_try_event:
  assumes "jp data = Inr json" and "truthy (lookup json ''event'')"
  shows "converse_try jp data c = converse_event (lookup json ''event'') c"
proof -
  let ?ev = "lookup json ''event''"
  from assms(2) have nj: "\<not> nullish json" by (cases json) simp_all
  from assms(2) have ne: "\<not> nullish ?ev" by (rule truthy_not_nullish)
  have op: "\<And>k ks. opt_path (lookup ?ev k) ks = opt_path ?ev (k # ks)"
    using ne by (simp add: opt_path.simps)
  show ?thesis
    unfolding converse_try_def converse_event_def
    apply (subst bind_def)
    apply (simp only: lift_def assms(1) prod.case sum.case)
    apply (subst bind_read_single [OF nj])
    apply (simp only: assms(2) if_True)
    apply (subst bind_read_single [OF ne])
    apply (subst op)
    apply (cases "truthy (opt_path ?ev [''contentBlockDelta'', ''delta'', ''text''])")
     apply (simp add: bind_read_truthy ret_def)
    apply (simp only: if_False)
    apply (subst bind_read_single [OF ne])
    apply (subst op)
    apply (cases "truthy (opt_path ?ev [''contentBlockStart'', ''start'', ''toolUse''])")
     apply (simp only: if_True)
     apply (subst bind_read_truthy, assumption)
     apply (subst bind_read_single, erule truthy_not_nullish)
     apply (simp add: bind_def set_currentToolUseId_def read_single truthy_not_nullish ret_def)
    apply (simp only: if_False)
    apply (subst bind_read_single [OF ne])
    apply (subst op)
    apply (cases "truthy (opt_path ?ev [''contentBlockDelta'', ''delta'', ''toolUse'', ''input''])")
     apply (simp only: if_True)
     apply (subst bind_read_truthy, assumption)
     apply (simp add: bind_def get_currentToolUseId_def ret_def)
    apply (simp only: if_False)
    apply (subst bind_read_single [OF ne])
    apply (subst op)
    apply (cases "truthy (opt_path ?ev [''messageStop'', ''stopReason''])")
     apply (simp only: if_True)
     apply (subst bind_read_truthy, assumption)
     apply (simp add: ret_def)
    apply (simp only: if_False)
    apply (subst bind_read_single [OF ne])
    apply (simp add: ret_def op [symmetric])
    done
qed

lemma converse_try_no_event:
  assumes "jp data = Inr json" and "\<not> nullish json" and "\<not> truthy (lookup json ''event'')"
  shows "converse_try jp data c =
        (if truthy (lookup json ''result'')
         then (c, Inr ([ResultEvent (if typeof (lookup json ''result'') = ''object''
                                     then lookup (lookup json ''result'') ''stop_reason''
                                     else JStr ''end_turn'')], []))
         else (c, Inr ([], [])))"
proof -
  have r2: "truthy (lookup json ''result'') \<Longrightarrow>
      read json [''result'', ''stop_reason''] c = (c, Inr (lookup (lookup json ''result'') ''stop_reason''))"
    using assms(2) by (simp add: read.simps bind_def lift_def get_prop_def ret_def truthy_not_nullish)
  show ?thesis
    unfolding converse_try_def
    apply (subst bind_def)
    apply (simp only: lift_def assms(1) prod.case sum.case)
    apply (subst bind_read_single [OF assms(2)])
    apply (simp only: assms(3) if_False)
    apply (subst bind_read_single [OF assms(2)])
    apply (cases "truthy (lookup json ''result'')")
     apply (simp only: if_True)
     apply (subst bind_read_single [OF assms(2)])
     apply (simp add: bind_def r2 ret_def)
    apply (simp add: ret_def)
    done
qed

lemma converse_try_null:
  assumes "jp data = Inr json" and "nullish json"
  shows "converse_try jp data c = (c, Inl TypeError)"
  unfolding converse_try_def
  by (simp add: bind_def lift_def assms read_nullish)

lemma converse_try_syntax:
  assumes "jp data = Inl e"
  shows "converse_try jp data c = (c, Inl e)"
  unfolding converse_try_def
  by (simp add: bind_def lift_def assms)

lemma chunk_cases:
  fixes jp :: "string \<Rightarrow> js_error + jsval"
  obtains (skip) "\<not> startsWith line ''data: '' \<or> trim (substring line 6) = []"
  | (malformed) e where "startsWith line ''data: ''" "trim (substring line 6) \<noteq> []" "jp (trim (substring line 6)) = Inl e"
  | (null) json where "startsWith line ''data: ''" "trim (substring line 6) \<noteq> []" "jp (trim (substring line 6)) = Inr json" "nullish json"
  | (event) json where "startsWith line ''data: ''" "trim (substring line 6) \<noteq> []" "jp (trim (substring line 6)) = Inr json" "truthy (lookup json ''event'')"
  | (other) json where "startsWith line ''data: ''" "trim (substring line 6) \<noteq> []" "jp (trim (substring line 6)) = Inr json" "\<not> nullish json" "\<not> truthy (lookup json ''event'')"
proof (cases "\<not> startsWith line ''data: '' \<or> trim (substring line 6) = []")
  case True
  then show ?thesis by (rule skip)
next
  case False
  then have a: "startsWith line ''data: ''" "trim (substring line 6) \<noteq> []" by auto
  show ?thesis
  proof (cases "jp (trim (substring line 6))")
    case (Inl e)
    with a show ?thesis by (rule malformed)
  next
    case (Inr json)
    show ?thesis
    proof (cases "nullish json")
      case True
      with a Inr show ?thesis by (rule null)
    next
      case nn: False
      show ?thesis
      proof (cases "truthy (lookup json ''event'')")
        case True
        with a Inr show ?thesis by (rule event)
      next
        case False
        with a Inr nn show ?thesis by (rule other)
      qed
    qed
  qed
qed

lemma chunk_skip:
  "\<not> startsWith line ''data: '' \<or> trim (substring line 6) = [] \<Longrightarrow>
   parseConverseChunk jp line c = (c, Inr ([], []))"
  by (auto simp: parseConverseChunk_def ret_def Let_def)

lemma chunk_try:
  "startsWith line ''data: '' \<Longrightarrow> trim (substring line 6) \<noteq> [] \<Longrightarrow>
   parseConverseChunk jp line c =
     try_catch (converse_try jp (trim (substring line 6))) (\<lambda>e. ret ([], [trim (substring line 6)])) c"
  by (simp add: parseConverseChunk_def Let_def)

lemma chunk_syntax:
  "startsWith line ''data: '' \<Longrightarrow> trim (substring line 6) \<noteq> [] \<Longrightarrow> jp (trim (substring line 6)) = Inl e \<Longrightarrow>
   parseConverseChunk jp line c = (c, Inr ([], [trim (substring line 6)]))"
  by (simp add: chunk_try try_catch_def converse_try_syntax ret_def)

lemma chunk_null:
  "startsWith line ''data: '' \<Longrightarrow> trim (substring line 6) \<noteq> [] \<Longrightarrow> jp (trim (substring line 6)) = Inr json \<Longrightarrow>
   nullish json \<Longrightarrow> parseConverseChunk jp line c = (c, Inr ([], [trim (substring line 6)]))"
  by (simp add: chunk_try try_catch_def converse_try_null ret_def)

lemma converse_event_Inr: "\<exists>c' evs. converse_event ev c = (c', Inr (evs, []))"
  by (simp add: converse_event_def)

lemma chunk_event:
  "startsWith line ''data: '' \<Longrightarrow> trim (substring line 6) \<noteq> [] \<Longrightarrow> jp (trim (substring line 6)) = Inr json \<Longrightarrow>
   truthy (lookup json ''event'') \<Longrightarrow> parseConverseChunk jp line c = converse_event (lookup json ''event'') c"
  using converse_event_Inr [of "lookup json ''event''" c]
  by (auto simp: chunk_try try_catch_def converse_try_event)

lemma chunk_other:
  "startsWith line ''data: '' \<Longrightarrow> trim (substring line 6) \<noteq> [] \<Longrightarrow> jp (trim (substring line 6)) = Inr json \<Longrightarrow>
   \<not> nullish json \<Longrightarrow> \<not> truthy (lookup json ''event'') \<Longrightarrow>
   parseConverseChunk jp line c =
        (if truthy (lookup json ''result'')
         then (c, Inr ([ResultEvent (if typeof (lookup json ''result'') = ''object''
                                     then lookup (lookup json ''result'') ''stop_reason''
                                     else JStr ''end_turn'')], []))
         else (c, Inr ([], [])))"
  by (simp add: chunk_try try_catch_def converse_try_no_event)

lemmas parser_simps = parseConverseChunk_def converse_try_def try_catch_def bind_def ret_def lift_def
  read.simps opt_path.simps get_prop_def startsWith_def substring_def trim_def is_whitespace_def
  JSON_parse_frames_def frames_def get_currentToolUseId_def set_currentToolUseId_def Let_def

lemma chunk_shape:
  fixes jp :: "string \<Rightarrow> js_error + jsval"
  shows "(\<exists>evs log. (\<forall>c. parseConverseChunk jp l c = (c, Inr (evs, log)))
                 \<and> (\<forall>c. reattribute c evs = evs) \<and> (\<forall>c. last_start c evs = c)
                 \<and> (\<forall>c es. reattribute c (evs @ es) = evs @ reattribute c es)
                 \<and> (\<forall>c es. last_start c (evs @ es) = last_start c es))
       \<or> (\<exists>i n. \<forall>c. parseConverseChunk jp l c = (i, Inr ([ToolUseStart i n], [])))
       \<or> (\<exists>d. \<forall>c. parseConverseChunk jp l c = (c, Inr ([ToolUseDelta c d], [])))"
proof (cases rule: chunk_cases [where line = l and jp = jp])
  case skip
  then show ?thesis by (simp add: chunk_skip)
next
  case (malformed e)
  then show ?thesis by (simp add: chunk_syntax)
next
  case (null json)
  then show ?thesis by (simp add: chunk_null)
next
  case (event json)
  note ce = chunk_event [where jp = jp and line = l, OF event]
  let ?ev = "lookup json ''event''"
  show ?thesis
  proof (cases "converse_matches ?ev CText")
    case True
    then show ?thesis unfolding ce by (simp add: converse_event_def)
  next
    case nt: False
    show ?thesis
    proof (cases "converse_matches ?ev CToolUseStart")
      case True
      with nt have "\<forall>c. converse_event ?ev c =
          (lookup (opt_path ?ev [''contentBlockStart'', ''start'', ''toolUse'']) ''toolUseId'',
           Inr ([ToolUseStart (lookup (opt_path ?ev [''contentBlockStart'', ''start'', ''toolUse'']) ''toolUseId'')
                              (lookup (opt_path ?ev [''contentBlockStart'', ''start'', ''toolUse'']) ''name'')], []))"
        by (simp add: converse_event_def)
      then show ?thesis unfolding ce by blast
    next
      case ns: False
      show ?thesis
      proof (cases "converse_matches ?ev CToolUseDelta")
        case True
        with nt ns have "\<forall>c. converse_event ?ev c =
          (c, Inr ([ToolUseDelta c (opt_path ?ev [''contentBlockDelta'', ''delta'', ''toolUse'', ''input''])], []))"
          by (simp add: converse_event_def)
        then show ?thesis unfolding ce by blast
      next
        case nd: False
        show ?thesis
        proof (cases "converse_matches ?ev CResult")
          case True
          with nt ns nd show ?thesis unfolding ce by (simp add: converse_event_def)
        next
          case nr: False
          show ?thesis
          proof (cases "converse_matches ?ev CLifecycle")
            case True
            with nt ns nd nr show ?thesis unfolding ce by (simp add: converse_event_def)
          next
            case False
            with nt ns nd nr show ?thesis unfolding ce by (simp add: converse_event_def)
          qed
        qed
      qed
    qed
  qed
next
  case (other json)
  note co = chunk_other [where jp = jp and line = l, OF other]
  show ?thesis unfolding co by (cases "truthy (lookup json ''result'')") simp_all
qed

lemma parseLines_reattribute:
  fixes jp :: "string \<Rightarrow> js_error + jsval"
  shows "\<exists>es. reattribute c0 es = es
            \<and> (\<forall>c. parseLines jp ls c = (last_start c es, Inr (reattribute c es)))"
proof (induction ls arbitrary: c0)
  case Nil
  show ?case by (intro exI [of _ "[]"]) (simp add: ret_def)
next
  case (Cons l ls)
  from chunk_shape [of jp l]
  consider (plain) evs log where "\<forall>c. parseConverseChunk jp l c = (c, Inr (evs, log))"
      "\<forall>c es. reattribute c (evs @ es) = evs @ reattribute c es"
      "\<forall>c es. last_start c (evs @ es) = last_start c es"
    | (start) i n where "\<forall>c. parseConverseChunk jp l c = (i, Inr ([ToolUseStart i n], []))"
    | (delta) d where "\<forall>c. parseConverseChunk jp l c = (c, Inr ([ToolUseDelta c d], []))"
    by blast
  then show ?case
  proof cases
    case plain
    from Cons.IH [of c0] obtain es where es: "reattribute c0 es = es"
      "\<forall>c. parseLines jp ls c = (last_start c es, Inr (reattribute c es))" by blast
    show ?thesis
      by (rule exI [of _ "evs @ es"]) (simp add: bind_def ret_def plain es)
  next
    case start
    from Cons.IH [of i] obtain es where es: "reattribute i es = es"
      "\<forall>c. parseLines jp ls c = (last_start c es, Inr (reattribute c es))" by blast
    from es(2) have es': "parseLines jp ls i = (last_start i es, Inr es)" by (simp add: es(1))
    show ?thesis
      by (rule exI [of _ "ToolUseStart i n # es"]) (simp add: bind_def ret_def start es')
  next
    case delta
    from Cons.IH [of c0] obtain es where es: "reattribute c0 es = es"
      "\<forall>c. parseLines jp ls c = (last_start c es, Inr (reattribute c es))" by blast
    show ?thesis
      by (rule exI [of _ "ToolUseDelta c0 d # es"]) (simp add: bind_def ret_def delta es)
  qed
qed

lemma parseLines_append:
  "parseLines jp (xs @ ys) = bind (parseLines jp xs) (\<lambda>e1. bind (parseLines jp ys) (\<lambda>e2. ret (e1 @ e2)))"
proof (induction xs)
  case Nil
  show ?case by (auto simp: bind_def ret_def fun_eq_iff split: prod.splits sum.splits)
next
  case (Cons x xs)
  show ?case
    by (auto simp: Cons bind_def ret_def fun_eq_iff split: prod.splits sum.splits)
qed

lemma all_text_concat_text: "all_text segs = concat_text segs"
proof (induction segs)
  case Nil
  show ?case by simp
next
  case (Cons x xs)
  then show ?case by (cases x) simp_all
qed

lemma text_of_segments_concat_text:
  "text_of_segments objs addrs = concat_text (deref_segments objs addrs)"
  using all_text_concat_text [of "map (\<lambda>a. objs ! a) addrs"]
  by (simp add: text_of_segments_def all_text_def deref_segments_def)

lemma map_entry_kept:
  assumes "\<forall>n. e \<noteq> ToolUseStart i n"
  shows "map_of (toolCallMap (handleEvent s e)) i = map_of (toolCallMap s) i"
proof (cases e)
  case (ToolUseStart j n)
  with assms have "j \<noteq> i" by auto
  with ToolUseStart show ?thesis by (simp add: push_segment_def map_of_map_set)
next
  case (ToolUseDelta j d)
  then show ?thesis by (simp split: option.splits)
next
  case (ToolResult j r)
  then show ?thesis by (simp split: option.splits)
qed simp_all

lemma map_entry_kept_all:
  "\<forall>n. ToolUseStart i n \<notin> set evs \<Longrightarrow>
   map_of (toolCallMap (handleEvents s evs)) i = map_of (toolCallMap s) i"
proof (induction evs arbitrary: s)
  case Nil
  show ?case by simp
next
  case (Cons e evs)
  from Cons.prems have "\<forall>n. e \<noteq> ToolUseStart i n" "\<forall>n. ToolUseStart i n \<notin> set evs" by auto
  with Cons.IH [of "handleEvent s e"] map_entry_kept [of e i s] show ?case by simp
qed

section \<open>The segment assembler: properties\<close>

subsection \<open>Implicit completion\<close>

text \<open>
  Claim C1, as the code has it. Take any event sequence that contains a
  \<open>tool_use_start\<close> for id \<open>i\<close> and, later, a \<open>text\<close> event. Right after the
  assembler has processed that \<open>text\<close> event, the \<open>ToolCall\<close> that the tool-call map
  holds under \<open>i\<close> carries the id \<open>i\<close>, is wrapped by a tool segment of the segment
  list, and has status \<open>complete\<close>; this holds whether or not a \<open>tool_result\<close> for \<open>i\<close>
  occurs in between. When no further \<open>tool_use_start\<close> for \<open>i\<close> comes between the named
  start and the \<open>text\<close> event, that \<open>ToolCall\<close> is the one the named start created.
\<close>

theorem implicit_completion_map_entry:
  "(\<exists>a. map_get (toolCallMap (handleEvents (init ts) (pre @ ToolUseStart i n # mid @ [Text c]))) i = Some a
      \<and> ToolSegment a \<in> set (segmentObjs (handleEvents (init ts) (pre @ ToolUseStart i n # mid @ [Text c])))
      \<and> toolUseId (toolCalls (handleEvents (init ts) (pre @ ToolUseStart i n # mid @ [Text c])) ! a) = i
      \<and> status (toolCalls (handleEvents (init ts) (pre @ ToolUseStart i n # mid @ [Text c])) ! a) = complete)
   \<and> ((\<forall>n'. ToolUseStart i n' \<notin> set mid) \<longrightarrow>
        map_get (toolCallMap (handleEvents (init ts) (pre @ ToolUseStart i n # mid @ [Text c]))) i
          = Some (length (toolCalls (handleEvents (init ts) pre)))
      \<and> status (toolCalls (handleEvents (init ts) (pre @ ToolUseStart i n # mid @ [Text c]))
                 ! length (toolCalls (handleEvents (init ts) pre))) = complete)"
proof -
  define s0 where "s0 = handleEvents (init ts) pre"
  define s1 where "s1 = handleEvents (handleEvent s0 (ToolUseStart i n)) mid"
  have w0: "wf s0" unfolding s0_def by (rule wf_reachable)
  have w1: "wf s1" unfolding s1_def by (intro wf_handleEvents wf_handleEvent w0)
  have "complete_or_pending i s1" unfolding s1_def
    by (intro complete_or_pending_handleEvents wf_handleEvent w0 complete_or_pending_start)
  from complete_after_text [OF w1 this, of c]
  obtain a where a: "map_of (toolCallMap (handleEvent s1 (Text c))) i = Some a"
    "status (toolCalls (handleEvent s1 (Text c)) ! a) = complete" by blast
  have fin: "handleEvents (init ts) (pre @ ToolUseStart i n # mid @ [Text c]) = handleEvent s1 (Text c)"
    by (simp add: s0_def s1_def handleEvents_append)
  have "wf (handleEvent s1 (Text c))" by (rule wf_handleEvent [OF w1])
  with a(1) have b: "ToolSegment a \<in> set (segmentObjs (handleEvent s1 (Text c)))"
    "toolUseId (toolCalls (handleEvent s1 (Text c)) ! a) = i"
    by (simp_all add: wf_def)
  have first: "\<exists>a. map_get (toolCallMap (handleEvent s1 (Text c))) i = Some a
      \<and> ToolSegment a \<in> set (segmentObjs (handleEvent s1 (Text c)))
      \<and> toolUseId (toolCalls (handleEvent s1 (Text c)) ! a) = i
      \<and> status (toolCalls (handleEvent s1 (Text c)) ! a) = complete"
    using a b unfolding map_get_def by blast
  have second: "map_get (toolCallMap (handleEvent s1 (Text c))) i = Some (length (toolCalls s0))
      \<and> status (toolCalls (handleEvent s1 (Text c)) ! length (toolCalls s0)) = complete"
    if ns: "\<forall>n'. ToolUseStart i n' \<notin> set mid"
  proof -
    have "map_of (toolCallMap (handleEvent s0 (ToolUseStart i n))) i = Some (length (toolCalls s0))"
      by (simp add: push_segment_def map_of_map_set)
    with map_entry_kept_all [OF ns, of "handleEvent s0 (ToolUseStart i n)"]
    have "map_of (toolCallMap s1) i = Some (length (toolCalls s0))" by (simp add: s1_def)
    then have "map_of (toolCallMap (handleEvent s1 (Text c))) i = Some (length (toolCalls s0))"
      by simp
    with a show ?thesis by (simp add: map_get_def)
  qed
  from first second show ?thesis unfolding fin s0_def by blast
qed

theorem implicit_completion_map_entry_witness:
  "(\<forall>n'. ToolUseStart ''t2'' n' \<notin> set [ToolUseDelta ''t2'' ''{}''])
   \<and> map_get (toolCallMap (handleEvents (init ''t0'')
         ([Text ''a'', ToolUseStart ''t1'' ''g''] @ ToolUseStart ''t2'' ''f'' # [ToolUseDelta ''t2'' ''{}''] @ [Text ''done'']))) ''t2''
       = Some 1
   \<and> status (toolCalls (handleEvents (init ''t0'')
         ([Text ''a'', ToolUseStart ''t1'' ''g''] @ ToolUseStart ''t2'' ''f'' # [ToolUseDelta ''t2'' ''{}''] @ [Text ''done''])) ! 1)
       = complete"
proof -
  have h: "\<forall>n'. ToolUseStart ''t2'' n' \<notin> set [ToolUseDelta ''t2'' ''{}'']" by simp
  have l: "length (toolCalls (handleEvents (init ''t0'') [Text ''a'', ToolUseStart ''t1'' ''g''])) = 1"
    by (simp add: run_simps)
  from implicit_completion_map_entry [of "''t0''" "[Text ''a'', ToolUseStart ''t1'' ''g'']" "''t2''" "''f''"
      "[ToolUseDelta ''t2'' ''{}'']" "''done''"] h
  show ?thesis unfolding l by blast
qed

text \<open>
  A \<open>ToolCall\<close> that a later start for the same id has displaced from the map is not
  reached by the sweep, which runs over the values of the map. After two starts for
  \<open>t1\<close> and a \<open>text\<close> event, the call created by the first start, still wrapped by the
  first segment, is \<open>streaming\<close>.
\<close>

theorem implicit_completion_counterexample:
  "segmentObjs (handleEvents (init ''t0'') [ToolUseStart ''t1'' ''calc'', ToolUseStart ''t1'' ''calc'', Text ''ok'']) ! 0
     = ToolSegment 0
   \<and> toolUseId (toolCalls (handleEvents (init ''t0'')
        [ToolUseStart ''t1'' ''calc'', ToolUseStart ''t1'' ''calc'', Text ''ok'']) ! 0) = ''t1''
   \<and> status (toolCalls (handleEvents (init ''t0'')
        [ToolUseStart ''t1'' ''calc'', ToolUseStart ''t1'' ''calc'', Text ''ok'']) ! 0) = streaming"
  by (simp add: run_simps)

subsection \<open>Duplicate start\<close>

text \<open>
  Claim C3, as the code has it. A \<open>tool_use_start\<close> whose id is already a key of the
  tool-call map is not ignored: the handler allocates a fresh \<open>ToolCall\<close> (empty input,
  no result, status \<open>streaming\<close>), appends a new tool segment that wraps it, and makes
  the existing map entry refer to the fresh call. The keys of the map and their order
  stay the same, the earlier segments stay in place, and the earlier \<open>ToolCall\<close> is a
  different object from the fresh one.
\<close>

theorem duplicate_start_replaces:
  assumes "s = handleEvents (init ts) evs" and "map_get (toolCallMap s) i = Some a"
  shows "segments (handleEvent s (ToolUseStart i n)) = segments s @ [length (segmentObjs s)]
       \<and> segmentObjs (handleEvent s (ToolUseStart i n)) = segmentObjs s @ [ToolSegment (length (toolCalls s))]
       \<and> toolCalls (handleEvent s (ToolUseStart i n)) =
           toolCalls s @ [\<lparr>toolUseId = i, name = n, input = [], result = None, status = streaming\<rparr>]
       \<and> map_get (toolCallMap (handleEvent s (ToolUseStart i n))) i = Some (length (toolCalls s))
       \<and> a < length (toolCalls s)
       \<and> map fst (toolCallMap (handleEvent s (ToolUseStart i n))) = map fst (toolCallMap s)"
proof -
  from assms(1) have "wf s" by (simp add: wf_reachable)
  with assms(2) have "a < length (toolCalls s)" by (simp add: wf_def map_get_def)
  then show ?thesis using assms(2)
    by (simp add: push_segment_def map_get_def map_of_map_set map_fst_map_set)
qed

theorem duplicate_start_replaces_witness:
  "map_get (toolCallMap (handleEvents (init ''t0'') [ToolUseStart ''t1'' ''calc'', ToolUseDelta ''t1'' ''{}''])) ''t1'' = Some 0
   \<and> segments (handleEvent (handleEvents (init ''t0'') [ToolUseStart ''t1'' ''calc'', ToolUseDelta ''t1'' ''{}''])
                 (ToolUseStart ''t1'' ''calc'')) = [0, 1]
   \<and> map_get (toolCallMap (handleEvent (handleEvents (init ''t0'') [ToolUseStart ''t1'' ''calc'', ToolUseDelta ''t1'' ''{}''])
                 (ToolUseStart ''t1'' ''calc''))) ''t1'' = Some 1"
proof -
  have h: "map_get (toolCallMap (handleEvents (init ''t0'') [ToolUseStart ''t1'' ''calc'', ToolUseDelta ''t1'' ''{}''])) ''t1'' = Some 0"
    unfolding dup_pre by (simp add: map_get_def)
  from duplicate_start_replaces [OF refl h, of "''calc''"] h show ?thesis
    unfolding dup_pre by simp
qed

text \<open>
  The second start is therefore no no-op. After a start for \<open>t1\<close> and a delta, a second
  start for \<open>t1\<close> changes both the segment list and the tool-call map.
\<close>

theorem duplicate_start_counterexample:
  "map_get (toolCallMap (handleEvents (init ''t0'') [ToolUseStart ''t1'' ''calc'', ToolUseDelta ''t1'' ''{}''])) ''t1'' = Some 0
   \<and> segments (handleEvent (handleEvents (init ''t0'') [ToolUseStart ''t1'' ''calc'', ToolUseDelta ''t1'' ''{}''])
                 (ToolUseStart ''t1'' ''calc''))
       \<noteq> segments (handleEvents (init ''t0'') [ToolUseStart ''t1'' ''calc'', ToolUseDelta ''t1'' ''{}''])
   \<and> toolCallMap (handleEvent (handleEvents (init ''t0'') [ToolUseStart ''t1'' ''calc'', ToolUseDelta ''t1'' ''{}''])
                 (ToolUseStart ''t1'' ''calc''))
       \<noteq> toolCallMap (handleEvents (init ''t0'') [ToolUseStart ''t1'' ''calc'', ToolUseDelta ''t1'' ''{}''])"
  unfolding dup_pre dup_post by (simp add: map_get_def)

subsection \<open>Text round trip\<close>

text \<open>
  Claim C5. For every event sequence processed from the start of a turn, the contents of
  the \<open>text\<close> events, concatenated in arrival order, equal the contents of the text
  segments of the assembled segment list, concatenated in segment order.
\<close>

theorem text_round_trip:
  "text_of_segments (segmentObjs (handleEvents (init ts) evs)) (segments (handleEvents (init ts) evs))
     = concat (map event_text evs)"
proof -
  have "all_text (segmentObjs (handleEvents (init ts) evs)) = all_text (segmentObjs (init ts)) @ concat (map event_text evs)"
    by (rule all_text_handleEvents [OF wf_init])
  moreover have "all_text (segmentObjs (init ts)) = []" by (simp add: init_def all_text_def)
  ultimately show ?thesis by (simp add: text_of_segments_wf [OF wf_reachable])
qed

subsection \<open>Status monotonicity\<close>

text \<open>
  Claim C6. For every \<open>ToolCall\<close> object of the assembler and every event sequence, the
  status after the sequence is reached from the status before it along
  streaming \<open>\<rightarrow>\<close> executing \<open>\<rightarrow>\<close> complete or streaming \<open>\<rightarrow>\<close> complete. In
  particular no event moves a status from \<open>complete\<close> back to \<open>streaming\<close> or
  \<open>executing\<close>, nor from \<open>executing\<close> back to \<open>streaming\<close>.
\<close>

theorem status_monotone:
  assumes "a < length (toolCalls s)"
  shows "status_path (status (toolCalls s ! a)) (status (toolCalls (handleEvents s evs) ! a))"
  using assms
proof (induction evs arbitrary: s)
  case Nil
  then show ?case by simp
next
  case (Cons e evs)
  from Cons.prems have "a < length (toolCalls (handleEvent s e))"
    using length_toolCalls_handleEvent [of s e] by simp
  from Cons.IH [OF this] status_handleEvent [OF Cons.prems, of e]
  show ?case by (auto intro: status_path_trans)
qed

theorem status_monotone_witness:
  "0 < length (toolCalls (handleEvents (init ''t0'') [ToolUseStart ''t1'' ''calc'', ToolResult ''t1'' ''2'']))
   \<and> status (toolCalls (handleEvents (init ''t0'') [ToolUseStart ''t1'' ''calc'', ToolResult ''t1'' ''2'']) ! 0)
       = complete
   \<and> status (toolCalls (handleEvents
                 (handleEvents (init ''t0'') [ToolUseStart ''t1'' ''calc'', ToolResult ''t1'' ''2''])
                 [MessageEvent ''assistant'', ToolUseStart ''t1'' ''calc'', Text ''ok'']) ! 0)
       = complete"
proof -
  let ?s = "handleEvents (init ''t0'') [ToolUseStart ''t1'' ''calc'', ToolResult ''t1'' ''2'']"
  let ?evs = "[MessageEvent ''assistant'', ToolUseStart ''t1'' ''calc'', Text ''ok'']"
  have l: "0 < length (toolCalls ?s)"
    by (simp add: run_simps)
  have st: "status (toolCalls ?s ! 0) = complete"
    by (simp add: run_simps)
  from status_monotone [OF l, of ?evs] st
  have "status_path complete (status (toolCalls (handleEvents ?s ?evs) ! 0))" by simp
  then have "status (toolCalls (handleEvents ?s ?evs) ! 0) = complete"
    by (cases "status (toolCalls (handleEvents ?s ?evs) ! 0)") simp_all
  with l st show ?thesis by simp
qed

subsection \<open>Dangling correlation\<close>

text \<open>
  Claim C7. A \<open>tool_use_delta\<close> or \<open>tool_result\<close> event whose \<open>toolUseId\<close> is not a key of
  the tool-call map is dropped: the segment list, the segment objects, the tool-call map
  and the \<open>ToolCall\<close> objects are all unchanged. The handler has no failing branch:
  \<open>Map.get\<close> returns \<open>undefined\<close> and the guard \<open>if (tc)\<close> skips the update.
\<close>

theorem dangling_dropped:
  assumes "map_get (toolCallMap s) i = None"
  shows "segments (handleEvent s (ToolUseDelta i d)) = segments s
       \<and> segmentObjs (handleEvent s (ToolUseDelta i d)) = segmentObjs s
       \<and> toolCallMap (handleEvent s (ToolUseDelta i d)) = toolCallMap s
       \<and> toolCalls (handleEvent s (ToolUseDelta i d)) = toolCalls s
       \<and> segments (handleEvent s (ToolResult i r)) = segments s
       \<and> segmentObjs (handleEvent s (ToolResult i r)) = segmentObjs s
       \<and> toolCallMap (handleEvent s (ToolResult i r)) = toolCallMap s
       \<and> toolCalls (handleEvent s (ToolResult i r)) = toolCalls s"
  using assms by (simp add: updateMessage_def)

theorem dangling_dropped_witness:
  "map_get (toolCallMap (handleEvent (init ''t0'') (ToolUseStart ''t1'' ''calc''))) ''t9'' = None
   \<and> segments (handleEvent (handleEvent (init ''t0'') (ToolUseStart ''t1'' ''calc'')) (ToolUseDelta ''t9'' ''{}''))
       = [0]
   \<and> toolCallMap (handleEvent (handleEvent (init ''t0'') (ToolUseStart ''t1'' ''calc'')) (ToolResult ''t9'' ''2''))
       = [(''t1'', 0)]"
proof -
  have h: "map_get (toolCallMap (handleEvent (init ''t0'') (ToolUseStart ''t1'' ''calc''))) ''t9'' = None"
    by (simp add: init_def updateMessage_def push_segment_def map_get_def)
  have s: "segments (handleEvent (init ''t0'') (ToolUseStart ''t1'' ''calc'')) = [0]"
    by (simp add: init_def updateMessage_def push_segment_def)
  have m: "toolCallMap (handleEvent (init ''t0'') (ToolUseStart ''t1'' ''calc'')) = [(''t1'', 0)]"
    by (simp add: init_def updateMessage_def push_segment_def)
  from dangling_dropped [OF h, of "''{}''" "''2''"] h s m show ?thesis by simp
qed

subsection \<open>Content and segments\<close>

text \<open>
  Claim C10. After the assembler has processed any event sequence, the \<open>content\<close> field
  of the assistant message is the concatenation, in order, of the contents of the text
  segments of the message's own segment list; tool segments add nothing. The same
  concatenation over the assembler's \<open>segments\<close> array gives the content as well, and so
  does the concatenation of the contents of the \<open>text\<close> events processed.
\<close>

theorem content_is_text_of_segments:
  "content (message (handleEvents (init ts) evs))
     = concat_text (deref_segments (segmentObjs (handleEvents (init ts) evs))
         (message_segments (message (handleEvents (init ts) evs))))
   \<and> content (message (handleEvents (init ts) evs))
     = concat_text (deref_segments (segmentObjs (handleEvents (init ts) evs))
         (segments (handleEvents (init ts) evs)))
   \<and> content (message (handleEvents (init ts) evs)) = concat (map event_text evs)"
proof -
  let ?s = "handleEvents (init ts) evs"
  have ok: "msg_ok ?s"
    by (rule msg_ok_handleEvents [OF msg_ok_init])
  have w: "wf ?s" by (rule wf_reachable)
  from ok have c: "content (message ?s) = text_of_segments (segmentObjs ?s) (segments ?s)"
    by (simp add: msg_ok_def)
  have "message_segments (message ?s) = segments ?s"
    using ok by (auto simp: msg_ok_def message_segments_def split: option.splits)
  moreover have "text_of_segments (segmentObjs ?s) (segments ?s) = concat (map event_text evs)"
    using all_text_handleEvents [OF wf_init, of ts evs] text_of_segments_wf [OF w]
    by (simp add: init_def)
  ultimately show ?thesis using c by (simp add: text_of_segments_concat_text)
qed

section \<open>The Converse parser: properties\<close>

subsection \<open>Bad input\<close>

text \<open>
  Claim C8. For every line the parser returns normally, it never throws to its caller.
  A line that does not start with \<open>data: \<close> emits no event and logs nothing. A line with
  the prefix whose payload \<open>JSON.parse\<close> rejects emits no event, leaves
  \<open>currentToolUseId\<close> alone, and does nothing but log the payload (an empty payload is
  skipped before \<open>JSON.parse\<close> is called, and logs nothing).
\<close>

theorem parser_never_throws:
  "(\<exists>c' evs log. parseConverseChunk jp line c = (c', Inr (evs, log)))
 \<and> (\<not> startsWith line ''data: '' \<longrightarrow> parseConverseChunk jp line c = (c, Inr ([], [])))
 \<and> (startsWith line ''data: '' \<and> jp (trim (substring line 6)) = Inl e \<longrightarrow>
      parseConverseChunk jp line c =
        (c, Inr ([], if trim (substring line 6) = [] then [] else [trim (substring line 6)])))"
proof (intro conjI impI)
  show "\<exists>c' evs log. parseConverseChunk jp line c = (c', Inr (evs, log))"
  proof (cases rule: chunk_cases [where line = line and jp = jp])
    case skip
    then show ?thesis by (simp add: chunk_skip)
  next
    case (malformed e)
    then show ?thesis by (simp add: chunk_syntax)
  next
    case (null json)
    then show ?thesis by (simp add: chunk_null)
  next
    case (event json)
    then show ?thesis using converse_event_Inr [of "lookup json ''event''" c] by (auto simp: chunk_event)
  next
    case (other json)
    then show ?thesis by (simp add: chunk_other)
  qed
next
  assume "\<not> startsWith line ''data: ''"
  then show "parseConverseChunk jp line c = (c, Inr ([], []))" by (simp add: chunk_skip)
next
  assume a: "startsWith line ''data: '' \<and> jp (trim (substring line 6)) = Inl e"
  show "parseConverseChunk jp line c =
        (c, Inr ([], if trim (substring line 6) = [] then [] else [trim (substring line 6)]))"
  proof (cases "trim (substring line 6) = []")
    case True
    then show ?thesis by (simp add: chunk_skip)
  next
    case False
    with a show ?thesis by (simp add: chunk_syntax)
  qed
qed

theorem parser_never_throws_witness:
  "\<not> startsWith '': keep-alive'' ''data: ''
   \<and> parseConverseChunk JSON_parse_frames '': keep-alive'' (JStr ''t1'') = (JStr ''t1'', Inr ([], []))
   \<and> startsWith ''data: {oops'' ''data: ''
   \<and> JSON_parse_frames (trim (substring ''data: {oops'' 6)) = Inl SyntaxError
   \<and> parseConverseChunk JSON_parse_frames ''data: {oops'' (JStr ''t1'') = (JStr ''t1'', Inr ([], [''{oops'']))"
proof -
  have a: "\<not> startsWith '': keep-alive'' ''data: ''"
    by (simp add: startsWith_def)
  have b: "startsWith ''data: {oops'' ''data: ''"
    by (simp add: startsWith_def)
  have t: "trim (substring ''data: {oops'' 6) = ''{oops''"
    by (simp add: trim_def substring_def is_whitespace_def)
  have c: "JSON_parse_frames (trim (substring ''data: {oops'' 6)) = Inl SyntaxError"
    unfolding t by (simp add: JSON_parse_frames_def frames_def)
  from parser_never_throws [of JSON_parse_frames "'': keep-alive''" "JStr ''t1''" SyntaxError] a
  have 1: "parseConverseChunk JSON_parse_frames '': keep-alive'' (JStr ''t1'') = (JStr ''t1'', Inr ([], []))"
    by blast
  from parser_never_throws [of JSON_parse_frames "''data: {oops''" "JStr ''t1''" SyntaxError] b c
  have "parseConverseChunk JSON_parse_frames ''data: {oops'' (JStr ''t1'') =
          (JStr ''t1'', Inr ([], if trim (substring ''data: {oops'' 6) = [] then []
                                 else [trim (substring ''data: {oops'' 6)]))"
    by blast
  then have 2: "parseConverseChunk JSON_parse_frames ''data: {oops'' (JStr ''t1'') = (JStr ''t1'', Inr ([], [''{oops'']))"
    unfolding t by simp
  from a b c 1 2 show ?thesis by blast
qed

subsection \<open>Precedence within one frame\<close>

text \<open>
  Claim C2, as the code has it. For every frame whose payload decodes to a value with a
  truthy \<open>event\<close> field, the parser emits at most one event: the first category, in the
  fixed order text, tool_use_start, tool_use_delta, result, lifecycle, that the \<open>event\<close>
  object matches, and nothing when it matches none. The parser emits no \<open>tool_result\<close>
  and no \<open>message\<close> event.
\<close>

theorem converse_precedence_order:
  assumes "startsWith line ''data: ''" and "trim (substring line 6) \<noteq> []"
    and "jp (trim (substring line 6)) = Inr json" and "truthy (lookup json ''event'')"
  shows "\<exists>c' evs. parseConverseChunk jp line c = (c', Inr (evs, []))
           \<and> map category_of evs = take 1 (filter (converse_matches (lookup json ''event'')) converse_precedence)"
  unfolding chunk_event [where jp = jp and line = line, OF assms]
  by (simp add: converse_event_def converse_precedence_def)

theorem converse_precedence_order_witness:
  \<open>startsWith ''data: {"event":{"contentBlockDelta":{"delta":{"text":"hi"}},"contentBlockStart":{"start":{"toolUse":{"toolUseId":"t1","name":"f"}}}}}'' ''data: ''
   \<and> (\<exists>c' evs. parseConverseChunk JSON_parse_frames
          ''data: {"event":{"contentBlockDelta":{"delta":{"text":"hi"}},"contentBlockStart":{"start":{"toolUse":{"toolUseId":"t1","name":"f"}}}}}''
          (JStr []) = (c', Inr (evs, []))
        \<and> map category_of evs = [CText])\<close>
proof -
  let ?l = \<open>''data: {"event":{"contentBlockDelta":{"delta":{"text":"hi"}},"contentBlockStart":{"start":{"toolUse":{"toolUseId":"t1","name":"f"}}}}}''\<close>
  let ?j = "JObj [(''event'', JObj [(''contentBlockDelta'', JObj [(''delta'', JObj [(''text'', JStr ''hi'')])]),
                             (''contentBlockStart'', JObj [(''start'', JObj [(''toolUse'',
                                 JObj [(''toolUseId'', JStr ''t1''), (''name'', JStr ''f'')])])])])]"
  have a: "startsWith ?l ''data: ''"
    by (simp add: startsWith_def)
  have b: "trim (substring ?l 6) \<noteq> []"
    by (simp add: trim_def substring_def is_whitespace_def)
  have c: "JSON_parse_frames (trim (substring ?l 6)) = Inr ?j"
    by (simp add: trim_def substring_def is_whitespace_def JSON_parse_frames_def frames_def)
  have d: "truthy (lookup ?j ''event'')"
    by simp
  have e: "take 1 (filter (converse_matches (lookup ?j ''event'')) converse_precedence) = [CText]"
    by (simp add: converse_precedence_def opt_path.simps)
  from converse_precedence_order [where jp = JSON_parse_frames and line = ?l and c = "JStr []", OF a b c d] a
  show ?thesis unfolding e by simp
qed

text \<open>
  The order is not the one of the tie-break rule. The frame above carries both a
  \<open>contentBlockStart\<close> with a \<open>toolUse\<close> and a \<open>contentBlockDelta\<close> with a text; the
  rule's order puts tool_use_start first, and the parser emits the text event alone.
\<close>

theorem precedence_counterexample:
  \<open>take 1 (filter (converse_matches
       (JObj [(''contentBlockDelta'', JObj [(''delta'', JObj [(''text'', JStr ''hi'')])]),
              (''contentBlockStart'', JObj [(''start'', JObj [(''toolUse'',
                  JObj [(''toolUseId'', JStr ''t1''), (''name'', JStr ''f'')])])])])) spec_precedence)
     = [CToolUseStart]
   \<and> parseConverseChunk JSON_parse_frames
       ''data: {"event":{"contentBlockDelta":{"delta":{"text":"hi"}},"contentBlockStart":{"start":{"toolUse":{"toolUseId":"t1","name":"f"}}}}}''
       (JStr []) = (JStr [], Inr ([Text (JStr ''hi'')], []))\<close>
  by (simp add: parser_simps spec_precedence_def)

subsection \<open>The Strands-level result\<close>

text \<open>
  Claim C9, as the code has it. For every frame whose payload decodes to a value with no
  truthy \<open>event\<close> field and a truthy \<open>result\<close> field, the parser emits exactly one
  event, a \<open>result\<close> event, logs nothing and leaves \<open>currentToolUseId\<close> alone. The
  \<open>stopReason\<close> of that event is \<open>"end_turn"\<close> when \<open>result\<close> is not an object
  (\<open>true\<close>, a non-empty string, a non-zero number), and the value of the \<open>stop_reason\<close>
  field when \<open>result\<close> is an object that has one.
\<close>

theorem result_default:
  assumes "startsWith line ''data: ''" and "trim (substring line 6) \<noteq> []"
    and "jp (trim (substring line 6)) = Inr json" and "\<not> nullish json"
    and "\<not> truthy (lookup json ''event'')" and "truthy (lookup json ''result'')"
  shows "\<exists>sr. parseConverseChunk jp line c = (c, Inr ([ResultEvent sr], []))
       \<and> (typeof (lookup json ''result'') \<noteq> ''object'' \<longrightarrow> sr = JStr ''end_turn'')
       \<and> (\<forall>fields v. lookup json ''result'' = JObj fields \<and> map_of fields ''stop_reason'' = Some v \<longrightarrow> sr = v)"
  unfolding chunk_other [where jp = jp and line = line, OF assms(1-5)] using assms(6) by auto

theorem result_default_witness:
  \<open>truthy (lookup (JObj [(''result'', JBool True)]) ''result'')
   \<and> parseConverseChunk JSON_parse_frames ''data: {"result":true}'' (JStr [])
       = (JStr [], Inr ([ResultEvent (JStr ''end_turn'')], []))
   \<and> parseConverseChunk JSON_parse_frames ''data: {"result":{"stop_reason":"max_tokens"}}'' (JStr [])
       = (JStr [], Inr ([ResultEvent (JStr ''max_tokens'')], []))\<close>
proof -
  let ?l1 = \<open>''data: {"result":true}''\<close>
  let ?j1 = "JObj [(''result'', JBool True)]"
  let ?l2 = \<open>''data: {"result":{"stop_reason":"max_tokens"}}''\<close>
  let ?j2 = "JObj [(''result'', JObj [(''stop_reason'', JStr ''max_tokens'')])]"
  have a1: "startsWith ?l1 ''data: ''" and a2: "startsWith ?l2 ''data: ''"
    by (simp_all add: startsWith_def)
  have b1: "trim (substring ?l1 6) \<noteq> []" and b2: "trim (substring ?l2 6) \<noteq> []"
    by (simp_all add: trim_def substring_def is_whitespace_def)
  have c1: "JSON_parse_frames (trim (substring ?l1 6)) = Inr ?j1"
    by (simp add: trim_def substring_def is_whitespace_def JSON_parse_frames_def frames_def)
  have c2: "JSON_parse_frames (trim (substring ?l2 6)) = Inr ?j2"
    by (simp add: trim_def substring_def is_whitespace_def JSON_parse_frames_def frames_def)
  have d1: "\<not> nullish ?j1" "\<not> truthy (lookup ?j1 ''event'')" "truthy (lookup ?j1 ''result'')"
    by simp_all
  have d2: "\<not> nullish ?j2" "\<not> truthy (lookup ?j2 ''event'')" "truthy (lookup ?j2 ''result'')"
    by simp_all
  from result_default [where jp = JSON_parse_frames and line = ?l1 and c = "JStr []", OF a1 b1 c1 d1]
  obtain sr1 where "parseConverseChunk JSON_parse_frames ?l1 (JStr []) = (JStr [], Inr ([ResultEvent sr1], []))"
    and "typeof (lookup ?j1 ''result'') \<noteq> ''object'' \<longrightarrow> sr1 = JStr ''end_turn''"
    by blast
  then have 1: "parseConverseChunk JSON_parse_frames ?l1 (JStr []) = (JStr [], Inr ([ResultEvent (JStr ''end_turn'')], []))"
    by simp
  from result_default [where jp = JSON_parse_frames and line = ?l2 and c = "JStr []", OF a2 b2 c2 d2]
  obtain sr2 where "parseConverseChunk JSON_parse_frames ?l2 (JStr []) = (JStr [], Inr ([ResultEvent sr2], []))"
    and "\<forall>fields v. lookup ?j2 ''result'' = JObj fields \<and> map_of fields ''stop_reason'' = Some v
           \<longrightarrow> sr2 = v"
    by blast
  then have 2: "parseConverseChunk JSON_parse_frames ?l2 (JStr []) = (JStr [], Inr ([ResultEvent (JStr ''max_tokens'')], []))"
    by simp
  from d1(3) 1 2 show ?thesis by blast
qed

text \<open>
  The default is not applied to an object without a \<open>stop_reason\<close> field: there the
  \<open>stopReason\<close> of the emitted event is \<open>undefined\<close>.
\<close>

theorem result_default_counterexample:
  \<open>parseConverseChunk JSON_parse_frames ''data: {"result":{}}'' (JStr [])
     = (JStr [], Inr ([ResultEvent JUndefined], []))
   \<and> parseConverseChunk JSON_parse_frames ''data: {"result":{}}'' (JStr [])
     \<noteq> (JStr [], Inr ([ResultEvent (JStr ''end_turn'')], []))\<close>
  by (simp add: parser_simps)

subsection \<open>Parser state across turns\<close>

text \<open>
  Claim C4, as the code has it. \<open>currentToolUseId\<close> is the parser's only state and it
  outlives a turn. Running the parser over \<open>S1\<close> and then over \<open>S2\<close> yields, for \<open>S2\<close>,
  the events of running it over \<open>S2\<close> alone, except that every \<open>tool_use_delta\<close> that
  comes before the first \<open>tool_use_start\<close> of \<open>S2\<close> carries the id that \<open>S1\<close> left in
  \<open>currentToolUseId\<close>, where the run over \<open>S2\<close> alone gives it the starting value.
\<close>

theorem cross_turn_leak_only_ids:
  fixes JSON_parse :: "string \<Rightarrow> js_error + jsval"
  shows "\<exists>c1 e1 c2 e2 c3.
           parseLines JSON_parse S1 c0 = (c1, Inr e1)
         \<and> parseLines JSON_parse S2 c0 = (c2, Inr e2)
         \<and> parseLines JSON_parse (S1 @ S2) c0 = (c3, Inr (e1 @ reattribute c1 e2))
         \<and> reattribute c0 e2 = e2"
proof -
  from parseLines_reattribute [of c0 JSON_parse S1]
  obtain e1 where "reattribute c0 e1 = e1"
    "\<forall>c. parseLines JSON_parse S1 c = (last_start c e1, Inr (reattribute c e1))" by blast
  then have e1: "parseLines JSON_parse S1 c0 = (last_start c0 e1, Inr e1)" by simp
  from parseLines_reattribute [of c0 JSON_parse S2]
  obtain e2 where r2: "reattribute c0 e2 = e2"
    and e2: "\<forall>c. parseLines JSON_parse S2 c = (last_start c e2, Inr (reattribute c e2))" by blast
  then have e2': "parseLines JSON_parse S2 c0 = (last_start c0 e2, Inr e2)" by simp
  have "parseLines JSON_parse (S1 @ S2) c0 =
          (last_start (last_start c0 e1) e2, Inr (e1 @ reattribute (last_start c0 e1) e2))"
    by (simp add: parseLines_append bind_def ret_def e1 e2)
  with e1 e2' r2 show ?thesis by blast
qed

text \<open>
  So the events of \<open>S2\<close> do depend on \<open>S1\<close>: a delta frame after a turn that started
  the tool \<open>t1\<close> is attributed to \<open>t1\<close>, and alone it is attributed to the empty id.
\<close>

theorem cross_turn_counterexample:
  \<open>parseLines JSON_parse_frames
     [''data: {"event":{"contentBlockStart":{"start":{"toolUse":{"toolUseId":"t1","name":"f"}}}}}'']
     (JStr []) = (JStr ''t1'', Inr [ToolUseStart (JStr ''t1'') (JStr ''f'')])
   \<and> parseLines JSON_parse_frames
     [''data: {"event":{"contentBlockDelta":{"delta":{"toolUse":{"input":"{}"}}}}}'']
     (JStr []) = (JStr [], Inr [ToolUseDelta (JStr []) (JStr ''{}'')])
   \<and> parseLines JSON_parse_frames
     ([''data: {"event":{"contentBlockStart":{"start":{"toolUse":{"toolUseId":"t1","name":"f"}}}}}'']
      @ [''data: {"event":{"contentBlockDelta":{"delta":{"toolUse":{"input":"{}"}}}}}''])
     (JStr []) = (JStr ''t1'', Inr [ToolUseStart (JStr ''t1'') (JStr ''f''), ToolUseDelta (JStr ''t1'') (JStr ''{}'')])\<close>
  by (simp add: parser_simps)

end
